theory Spec2Isabelle
  imports Complex_Main "HOL-Library.Sublist" "HOL-Library.Log_Nat"
begin

section \<open>Characters and strings\<close>

text \<open>
  The program reads a text file and works on Python \<^verbatim>\<open>str\<close> values. A character of the
  model is a \<^typ>\<open>char\<close>, read as a code point below 256; a \<^typ>\<open>string\<close> is a Python
  \<^verbatim>\<open>str\<close> over these code points.
\<close>

definition nl :: char where
  "nl = CHR 0x0A"

definition cr :: char where
  "cr = CHR 0x0D"

definition is_digit :: "char \<Rightarrow> bool" where
  "is_digit c = (c \<in> set ''0123456789'')"

text \<open>
  \<^verbatim>\<open>str.isspace\<close> on the code points below 256: tab, line feed, vertical tab, form feed,
  carriage return, the four separators 0x1C..0x1F, space, NEL (0x85) and no-break space
  (0xA0).
\<close>

definition is_space :: "char \<Rightarrow> bool" where
  "is_space c = (c \<in> set [CHR 0x09, CHR 0x0A, CHR 0x0B, CHR 0x0C, CHR 0x0D,
      CHR 0x1C, CHR 0x1D, CHR 0x1E, CHR 0x1F, CHR 0x20, CHR 0x85, CHR 0xA0])"

text \<open>\<^verbatim>\<open>str.strip()\<close>: whitespace removed at both ends.\<close>

definition strip :: "string \<Rightarrow> string" where
  "strip s = rev (dropWhile is_space (rev (dropWhile is_space s)))"

section \<open>The regular expressions\<close>

text \<open>
  The eight patterns of the program are sequences of four kinds of element: the anchors
  \<^verbatim>\<open>^\<close> and \<^verbatim>\<open>$\<close>, literal text, and the capturing groups \<^verbatim>\<open>(.+)\<close> and \<^verbatim>\<open>(\d+)\<close>.
  A pattern is a list of such elements.
\<close>

datatype cls = Dot | Digit

datatype tok = Bol | Eol | Lit string | Grp cls

text \<open>
  \<^verbatim>\<open>.\<close> is every character but the line feed (no DOTALL flag); \<^verbatim>\<open>\d\<close> is a decimal digit.
\<close>

fun in_cls :: "cls \<Rightarrow> char \<Rightarrow> bool" where
  "in_cls Dot c = (c \<noteq> nl)"
| "in_cls Digit c = is_digit c"

text \<open>
  The backtracking matcher of \<^verbatim>\<open>re\<close>, at one start position. \<open>rmatch b ts s\<close> matches the
  elements \<open>ts\<close> against the rest \<open>s\<close> of the subject, \<open>b\<close> telling whether \<open>s\<close> is the
  whole subject (where \<^verbatim>\<open>^\<close> holds), and returns the captured groups in order. \<^verbatim>\<open>$\<close> holds
  at the end of the subject and before a line feed that ends it. A group \<^verbatim>\<open>(c+)\<close> is
  greedy: \<open>rplus\<close> tries the longest run of characters of the class first and gives back
  one character at a time until the rest of the pattern matches.
\<close>

fun rmatch :: "bool \<Rightarrow> tok list \<Rightarrow> string \<Rightarrow> string list option"
  and rplus :: "tok list \<Rightarrow> string \<Rightarrow> nat \<Rightarrow> string list option" where
  "rmatch b [] s = Some []"
| "rmatch b (Bol # ts) s = (if b then rmatch b ts s else None)"
| "rmatch b (Eol # ts) s = (if s = [] \<or> s = [nl] then rmatch b ts s else None)"
| "rmatch b (Lit l # ts) s =
     (if prefix l s then rmatch (b \<and> l = []) ts (drop (length l) s) else None)"
| "rmatch b (Grp c # ts) s = rplus ts s (length (takeWhile (in_cls c) s))"
| "rplus ts s 0 = None"
| "rplus ts s (Suc k) =
     (case rmatch False ts (drop (Suc k) s) of
        Some gs \<Rightarrow> Some (take (Suc k) s # gs)
      | None \<Rightarrow> rplus ts s k)"

text \<open>\<^verbatim>\<open>pattern.match(s)\<close>: a match at the start of the subject only.\<close>

definition re_match :: "tok list \<Rightarrow> string \<Rightarrow> string list option" where
  "re_match ts s = rmatch True ts s"

text \<open>
  \<^verbatim>\<open>pattern.search(s)\<close>: the first start position, from the left, where the pattern
  matches; the end of the subject is a start position too.
\<close>

fun rsearch :: "bool \<Rightarrow> tok list \<Rightarrow> string \<Rightarrow> string list option" where
  "rsearch b ts [] = rmatch b ts []"
| "rsearch b ts (c # cs) =
     (case rmatch b ts (c # cs) of
        Some gs \<Rightarrow> Some gs
      | None \<Rightarrow> rsearch False ts cs)"

definition re_search :: "tok list \<Rightarrow> string \<Rightarrow> string list option" where
  "re_search ts s = rsearch True ts s"

text \<open>
  The patterns, each under the source text it is compiled from:
  \<^verbatim>\<open>^Analyzed (\d+) units$\<close>
\<close>

definition analysis_re :: "tok list" where
  "analysis_re = [Bol, Lit ''Analyzed '', Grp Digit, Lit '' units'', Eol]"

text \<open>\<^verbatim>\<open>^in unit (.+), (\d+) subprograms and packages out of (\d+) analyzed$\<close>\<close>

definition unit_re :: "tok list" where
  "unit_re = [Bol, Lit ''in unit '', Grp Dot, Lit '', '', Grp Digit,
     Lit '' subprograms and packages out of '', Grp Digit, Lit '' analyzed'', Eol]"

text \<open>\<^verbatim>\<open>^  (.+) at (.+):(\d+)\<close>\<close>

definition file_re :: "tok list" where
  "file_re = [Bol, Lit ''  '', Grp Dot, Lit '' at '', Grp Dot, Lit '':'', Grp Digit]"

text \<open>\<^verbatim>\<open>^  (.+) at (.+):(\d+), instantiated at (.+):(\d+)\<close>\<close>

definition gen_file_re :: "tok list" where
  "gen_file_re = [Bol, Lit ''  '', Grp Dot, Lit '' at '', Grp Dot, Lit '':'', Grp Digit,
     Lit '', instantiated at '', Grp Dot, Lit '':'', Grp Digit]"

text \<open>\<^verbatim>\<open>flow analyzed \((\d+) errors and (\d+) warnings\)\<close>\<close>

definition flow_re :: "tok list" where
  "flow_re = [Lit ''flow analyzed ('', Grp Digit, Lit '' errors and '', Grp Digit,
     Lit '' warnings)'']"

text \<open>\<^verbatim>\<open>proved \((\d+) checks\)$\<close>\<close>

definition proved_re :: "tok list" where
  "proved_re = [Lit ''proved ('', Grp Digit, Lit '' checks)'', Eol]"

text \<open>\<^verbatim>\<open>not proved, (\d+) checks out of (\d+) proved$\<close>\<close>

definition not_proved_re :: "tok list" where
  "not_proved_re = [Lit ''not proved, '', Grp Digit, Lit '' checks out of '', Grp Digit,
     Lit '' proved'', Eol]"

text \<open>\<^verbatim>\<open>^    (.+):(\d+):(\d+): (.+)$\<close>\<close>

definition suppr_msg_re :: "tok list" where
  "suppr_msg_re = [Bol, Lit ''    '', Grp Dot, Lit '':'', Grp Digit, Lit '':'', Grp Digit,
     Lit '': '', Grp Dot, Eol]"

section \<open>Errors and integer conversion\<close>

text \<open>
  The exceptions of the program: \<^verbatim>\<open>TypeError\<close> (subscripting \<^verbatim>\<open>None\<close>), \<^verbatim>\<open>IndexError\<close>
  (the last element of an empty list, a group a pattern does not have), \<^verbatim>\<open>ValueError\<close>
  (\<^verbatim>\<open>int\<close> of a string that is no integer literal), and the two of the division of
  integers, \<^verbatim>\<open>ZeroDivisionError\<close> and \<^verbatim>\<open>OverflowError\<close>. A computation that can raise
  returns \<open>Inl\<close> of the exception.
\<close>

datatype error = TypeError | IndexError | ValueError | ZeroDivisionError | OverflowError

fun bind_err :: "error + 'a \<Rightarrow> ('a \<Rightarrow> error + 'b) \<Rightarrow> error + 'b" where
  "bind_err (Inl e) f = Inl e"
| "bind_err (Inr x) f = f x"

definition digit_val :: "char \<Rightarrow> int" where
  "digit_val c = int (of_char c) - 48"

definition decimal :: "string \<Rightarrow> int" where
  "decimal s = foldl (\<lambda>a c. 10 * a + digit_val c) 0 s"

text \<open>
  The digits of a decimal literal accepted by \<^verbatim>\<open>int\<close>: digits, with single underscores
  allowed between two digits.
\<close>

fun int_body_ok :: "string \<Rightarrow> bool" where
  "int_body_ok [] = False"
| "int_body_ok [c] = is_digit c"
| "int_body_ok (c # d # s) =
     (if is_digit c then (if d = CHR ''_'' then int_body_ok s else int_body_ok (d # s))
      else False)"

text \<open>
  \<^verbatim>\<open>int(s)\<close> for a string, base 10 (CPython 3.6 and later): whitespace is dropped at both
  ends, one sign is allowed, then come the digits. The whitespace of \<^verbatim>\<open>int\<close> is that of
  \<^verbatim>\<open>str.isspace\<close> without the four separators 0x1C..0x1F. Integers are unbounded; the
  optional limit of the interpreter on the number of digits is not modelled.
\<close>

definition is_int_space :: "char \<Rightarrow> bool" where
  "is_int_space c = (c \<in> set [CHR 0x09, CHR 0x0A, CHR 0x0B, CHR 0x0C, CHR 0x0D,
      CHR 0x20, CHR 0x85, CHR 0xA0])"

definition py_int :: "string \<Rightarrow> error + int" where
  "py_int s =
     (let t = rev (dropWhile is_int_space (rev (dropWhile is_int_space s)));
          neg = (t \<noteq> [] \<and> hd t = CHR ''-'');
          body = (if t \<noteq> [] \<and> (hd t = CHR ''-'' \<or> hd t = CHR ''+'') then tl t else t)
      in if int_body_ok body
         then Inr ((if neg then - 1 else 1) * decimal (filter (\<lambda>c. c \<noteq> CHR ''_'') body))
         else Inl ValueError)"

section \<open>The data model\<close>

text \<open>
  The parser builds nested dictionaries with fixed keys; each is a record here. The keys
  \<^verbatim>\<open>name\<close>, \<^verbatim>\<open>fileName\<close> and \<^verbatim>\<open>lineNumber\<close> occur in two dictionaries and carry a prefix
  where they would clash. Line and column numbers are kept as the matched text, as in the
  program; only the counts go through \<^verbatim>\<open>int\<close>.
\<close>

record suppression =
  suppr_fileName :: string
  suppr_lineNumber :: string
  column :: string
  message :: string

record item =
  item_name :: string
  fileName :: string
  lineNumber :: string
  instFileName :: "string option"
  instLineNumber :: "string option"
  suppressions :: "suppression list"
  numFlowErrors :: int
  numFlowWarnings :: int
  numChecks :: int
  numProvedChecks :: int
  flowAnalyzed :: bool
  proved :: bool

record comp_unit =
  unit_name :: string
  numAnalyzed :: int
  numTotal :: int
  items :: "item list"

record report =
  numUnitsAnalyzed :: "int option"
  units :: "comp_unit list"

text \<open>The two variables the loop of \<^verbatim>\<open>parse_gnatprove_report\<close> updates.\<close>

record pstate =
  results :: report
  currentUnit :: "comp_unit option"

section \<open>The parser\<close>

text \<open>
  The item dictionary both branches of the item block create: the instantiation fields are
  \<^verbatim>\<open>None\<close> for a plain item line.
\<close>

definition new_item ::
  "string \<Rightarrow> string \<Rightarrow> string \<Rightarrow> string option \<Rightarrow> string option \<Rightarrow> item" where
  "new_item n f l fi li =
     \<lparr>item_name = n, fileName = f, lineNumber = l, instFileName = fi, instLineNumber = li,
      suppressions = [], numFlowErrors = 0, numFlowWarnings = 0, numChecks = 0,
      numProvedChecks = 0, flowAnalyzed = False, proved = False\<rparr>"

text \<open>
  The three trailing clauses of the item block (source lines 100 to 116), each searched in
  the whole line, in the program's order. The second proof clause sets \<open>proved\<close> as the
  first one does, and takes \<open>numChecks\<close> from its second group.
\<close>

definition flow_clause :: "item \<Rightarrow> string \<Rightarrow> error + item" where
  "flow_clause it line =
     (case re_search flow_re line of
        None \<Rightarrow> Inr it
      | Some [e, w] \<Rightarrow>
          bind_err (py_int e) (\<lambda>ve. bind_err (py_int w) (\<lambda>vw.
            Inr (it\<lparr>flowAnalyzed := True, numFlowErrors := ve, numFlowWarnings := vw\<rparr>)))
      | Some _ \<Rightarrow> Inl IndexError)"

definition proved_clause :: "item \<Rightarrow> string \<Rightarrow> error + item" where
  "proved_clause it line =
     (case re_search proved_re line of
        None \<Rightarrow> Inr it
      | Some [c] \<Rightarrow>
          bind_err (py_int c) (\<lambda>vc. bind_err (py_int c) (\<lambda>vp.
            Inr (it\<lparr>proved := True, numChecks := vc, numProvedChecks := vp\<rparr>)))
      | Some _ \<Rightarrow> Inl IndexError)"

definition not_proved_clause :: "item \<Rightarrow> string \<Rightarrow> error + item" where
  "not_proved_clause it line =
     (case re_search not_proved_re line of
        None \<Rightarrow> Inr it
      | Some [p, c] \<Rightarrow>
          bind_err (py_int c) (\<lambda>vc. bind_err (py_int p) (\<lambda>vp.
            Inr (it\<lparr>proved := True, numChecks := vc, numProvedChecks := vp\<rparr>)))
      | Some _ \<Rightarrow> Inl IndexError)"

text \<open>
  \<^verbatim>\<open>currentUnit['items'].append(item)\<close>: with no current unit the subscript raises
  \<^verbatim>\<open>TypeError\<close>.
\<close>

definition append_item :: "pstate \<Rightarrow> item \<Rightarrow> error + pstate" where
  "append_item st it =
     (case currentUnit st of
        None \<Rightarrow> Inl TypeError
      | Some u \<Rightarrow> Inr (st\<lparr>currentUnit := Some (u\<lparr>items := items u @ [it]\<rparr>)\<rparr>))"

text \<open>
  \<^verbatim>\<open>currentUnit['items'][-1]['suppressions'].append(s)\<close>: the suppression goes to the last
  item of the current unit. The subscripts raise \<^verbatim>\<open>TypeError\<close> when there is no current
  unit and \<^verbatim>\<open>IndexError\<close> when its list of items is empty.
\<close>

definition append_suppression :: "pstate \<Rightarrow> suppression \<Rightarrow> error + pstate" where
  "append_suppression st s =
     (case currentUnit st of
        None \<Rightarrow> Inl TypeError
      | Some u \<Rightarrow>
          (if items u = [] then Inl IndexError
           else Inr (st\<lparr>currentUnit := Some (u\<lparr>items := butlast (items u) @
             [(last (items u))\<lparr>suppressions := suppressions (last (items u)) @ [s]\<rparr>]\<rparr>)\<rparr>)))"

text \<open>
  The end of the item block: the clauses are applied to the new item, which is then
  appended to the items of the current unit.
\<close>

definition add_item :: "pstate \<Rightarrow> string \<Rightarrow> item \<Rightarrow> error + pstate" where
  "add_item st line it0 =
     bind_err (flow_clause it0 line) (\<lambda>it1.
     bind_err (proved_clause it1 line) (\<lambda>it2.
     bind_err (not_proved_clause it2 line) (\<lambda>it3.
       append_item st it3)))"

text \<open>
  The four blocks of the loop body (source lines 47 to 128), one for each pattern tried
  on the line. They are independent \<^verbatim>\<open>if\<close> statements: each is tried on every line.
\<close>

definition analysis_block :: "pstate \<Rightarrow> string \<Rightarrow> error + pstate" where
  "analysis_block st line =
     (case re_match analysis_re line of
        None \<Rightarrow> Inr st
      | Some [n] \<Rightarrow>
          bind_err (py_int n) (\<lambda>v.
            Inr (st\<lparr>results := (results st)\<lparr>numUnitsAnalyzed := Some v\<rparr>\<rparr>))
      | Some _ \<Rightarrow> Inl IndexError)"

text \<open>
  A unit header saves the unit under construction, if there is one, and starts a new one.
  (\<^verbatim>\<open>if currentUnit:\<close> tests a dictionary of four keys, which is true unless it is
  \<^verbatim>\<open>None\<close>.)
\<close>

definition save_unit :: "pstate \<Rightarrow> report" where
  "save_unit st =
     (case currentUnit st of
        None \<Rightarrow> results st
      | Some u \<Rightarrow> (results st)\<lparr>units := units (results st) @ [u]\<rparr>)"

definition unit_block :: "pstate \<Rightarrow> string \<Rightarrow> error + pstate" where
  "unit_block st line =
     (case re_match unit_re line of
        None \<Rightarrow> Inr st
      | Some [n, a, t] \<Rightarrow>
          bind_err (py_int a) (\<lambda>va. bind_err (py_int t) (\<lambda>vt.
            Inr (st\<lparr>results := save_unit st,
                    currentUnit := Some \<lparr>unit_name = n, numAnalyzed = va, numTotal = vt,
                                         items = []\<rparr>\<rparr>)))
      | Some _ \<Rightarrow> Inl IndexError)"

text \<open>
  The item block runs when either item pattern matches (\<^verbatim>\<open>if file_match or
  gen_file_match\<close>), and takes the fields of the generic instantiation when that pattern
  matches, those of the plain pattern otherwise.
\<close>

definition item_block :: "pstate \<Rightarrow> string \<Rightarrow> error + pstate" where
  "item_block st line =
     (let file_match = re_match file_re line;
          gen_file_match = re_match gen_file_re line
      in case gen_file_match of
           Some [n, f, l, fi, li] \<Rightarrow> add_item st line (new_item n f l (Some fi) (Some li))
         | Some _ \<Rightarrow> Inl IndexError
         | None \<Rightarrow>
             (case file_match of
                Some [n, f, l] \<Rightarrow> add_item st line (new_item n f l None None)
              | Some _ \<Rightarrow> Inl IndexError
              | None \<Rightarrow> Inr st))"

text \<open>The suppression block; the message alone is stripped of surrounding whitespace.\<close>

definition suppr_block :: "pstate \<Rightarrow> string \<Rightarrow> error + pstate" where
  "suppr_block st line =
     (case re_match suppr_msg_re line of
        None \<Rightarrow> Inr st
      | Some [f, l, c, m] \<Rightarrow>
          append_suppression st
            \<lparr>suppr_fileName = f, suppr_lineNumber = l, column = c, message = strip m\<rparr>
      | Some _ \<Rightarrow> Inl IndexError)"

text \<open>The loop body: the four blocks in sequence; an exception ends it.\<close>

definition parse_line :: "pstate \<Rightarrow> string \<Rightarrow> error + pstate" where
  "parse_line st line =
     bind_err (analysis_block st line) (\<lambda>st1.
     bind_err (unit_block st1 line) (\<lambda>st2.
     bind_err (item_block st2 line) (\<lambda>st3.
       suppr_block st3 line)))"

fun run :: "pstate \<Rightarrow> string list \<Rightarrow> error + pstate" where
  "run st [] = Inr st"
| "run st (line # ls) =
     (case parse_line st line of
        Inl e \<Rightarrow> Inl e
      | Inr st' \<Rightarrow> run st' ls)"

definition init_state :: pstate where
  "init_state = \<lparr>results = \<lparr>numUnitsAnalyzed = None, units = []\<rparr>, currentUnit = None\<rparr>"

text \<open>
  The parser on the lines of the file: the loop, then the unit still under construction
  is saved.
\<close>

definition parse_lines :: "string list \<Rightarrow> error + report" where
  "parse_lines ls =
     (case run init_state ls of
        Inl e \<Rightarrow> Inl e
      | Inr st \<Rightarrow> Inr (save_unit st))"

text \<open>
  Reading the file. It is opened in text mode with universal newlines: \<^verbatim>\<open>\r\n\<close> and a
  lone \<^verbatim>\<open>\r\<close> become \<^verbatim>\<open>\n\<close>. Iterating over the file gives its lines, each with the line
  feed that ends it; the last line has none when the text does not end with one.
\<close>

fun universal_newlines :: "string \<Rightarrow> string" where
  "universal_newlines [] = []"
| "universal_newlines [c] = [if c = cr then nl else c]"
| "universal_newlines (c # d # s) =
     (if c = cr then
        (if d = nl then nl # universal_newlines s else nl # universal_newlines (d # s))
      else c # universal_newlines (d # s))"

fun split_lines :: "string \<Rightarrow> string list" where
  "split_lines [] = []"
| "split_lines (c # s) =
     (if c = nl then [c] # split_lines s
      else (case split_lines s of
              [] \<Rightarrow> [[c]]
            | l # ls \<Rightarrow> (c # l) # ls))"

definition file_lines :: "string \<Rightarrow> string list" where
  "file_lines text = split_lines (universal_newlines text)"

text \<open>
  \<^verbatim>\<open>parse_gnatprove_report\<close>, as a function of the text of the file it opens.
\<close>

definition parse_gnatprove_report :: "string \<Rightarrow> error + report" where
  "parse_gnatprove_report text = parse_lines (file_lines text)"

section \<open>The proof ratio\<close>

text \<open>
  \<^verbatim>\<open>to_percent\<close> divides two integers with \<^verbatim>\<open>/\<close>, the true division of Python 3, whose
  result is a float: the binary64 number nearest to the exact quotient, ties going to the
  even significand. A float is modelled by the rational number it stands for (of two
  integers the division gives neither an infinity nor a NaN; the sign of a zero is not
  kept).

  \<open>round_half_even\<close> rounds a rational to the nearest integer, ties to even.
\<close>

definition round_half_even :: "rat \<Rightarrow> int" where
  "round_half_even x =
     (let f = \<lfloor>x\<rfloor>; r = x - of_int f
      in if r < 1 / 2 then f
         else if 1 / 2 < r then f + 1
         else if even f then f else f + 1)"

text \<open>
  The binary exponent of the quotient of two positive integers, the \<open>e\<close> with
  \<open>2\<^sup>e \<le> a / b < 2\<^sup>e\<^sup>+\<^sup>1\<close>: the difference of the bit lengths, or one less.
\<close>

definition quotient_exponent :: "int \<Rightarrow> int \<Rightarrow> int" where
  "quotient_exponent a b =
     (let k = bitlen a - bitlen b
      in if (if 0 \<le> k then b * 2 ^ nat k \<le> a else b \<le> a * 2 ^ nat (- k)) then k else k - 1)"

text \<open>
  \<^verbatim>\<open>a / b\<close> for two integers. The quotient is rounded to a multiple of \<open>2\<^sup>e\<^sup>-\<^sup>5\<^sup>2\<close>, where
  \<open>e\<close> is its exponent, not below the least exponent \<open>-1022\<close> of a normal number (below
  it the spacing of the subnormal numbers applies). A result of \<open>2\<^sup>1\<^sup>0\<^sup>2\<^sup>4\<close> or more is too
  large for a float: \<^verbatim>\<open>OverflowError\<close>.
\<close>

definition true_divide :: "int \<Rightarrow> int \<Rightarrow> error + rat" where
  "true_divide a b =
     (if b = 0 then Inl ZeroDivisionError
      else if a = 0 then Inr 0
      else
        let x = \<bar>of_int a / of_int b\<bar>;
            e = max (quotient_exponent \<bar>a\<bar> \<bar>b\<bar>) (- 1022);
            u = power_int 2 (e - 52);
            v = of_int (round_half_even (x / u)) * u
        in if 2 ^ 1024 \<le> v then Inl OverflowError
           else Inr (if (a < 0) = (b < 0) then v else - v))"

text \<open>
  \<^verbatim>\<open>to_percent\<close> (source lines 139 to 143) returns the integer \<^verbatim>\<open>1\<close> for a zero denominator
  and the float \<^verbatim>\<open>num / denom\<close> otherwise.
\<close>

datatype pynum = PyInt int | PyFloat rat

definition to_percent :: "int \<Rightarrow> int \<Rightarrow> error + pynum" where
  "to_percent num denom =
     (if denom = 0 then Inr (PyInt 1)
      else case true_divide num denom of
             Inl e \<Rightarrow> Inl e
           | Inr q \<Rightarrow> Inr (PyFloat q))"

section \<open>Line shapes\<close>

text \<open>The four shapes of line the loop body recognises, as predicates on a line.\<close>

definition is_analysis_line :: "string \<Rightarrow> bool" where
  "is_analysis_line l = (re_match analysis_re l \<noteq> None)"

definition is_unit_line :: "string \<Rightarrow> bool" where
  "is_unit_line l = (re_match unit_re l \<noteq> None)"

definition is_item_line :: "string \<Rightarrow> bool" where
  "is_item_line l = (re_match file_re l \<noteq> None \<or> re_match gen_file_re l \<noteq> None)"

definition is_suppr_line :: "string \<Rightarrow> bool" where
  "is_suppr_line l = (re_match suppr_msg_re l \<noteq> None)"

text \<open>
  \<open>from_header u l\<close>: the name and the two counts of the unit \<open>u\<close> are the three fields of
  the unit header line \<open>l\<close>.
\<close>

definition from_header :: "comp_unit \<Rightarrow> string \<Rightarrow> bool" where
  "from_header u l =
     (case re_match unit_re l of
        Some [n, a, t] \<Rightarrow>
          unit_name u = n \<and> py_int a = Inr (numAnalyzed u) \<and> py_int t = Inr (numTotal u)
      | _ \<Rightarrow> False)"

text \<open>
  \<open>proof_fields_from l it\<close>: the two check counts of the item \<open>it\<close> are what the proof
  clause of the line \<open>l\<close> says: \<open>P\<close> and \<open>C\<close> of a clause
  \<^verbatim>\<open>not proved, P checks out of C proved\<close>, or else \<open>C\<close> twice for \<^verbatim>\<open>proved (C checks)\<close>.
\<close>

definition proof_fields_from :: "string \<Rightarrow> item \<Rightarrow> bool" where
  "proof_fields_from l it =
     (case re_search not_proved_re l of
        Some [p, c] \<Rightarrow> py_int p = Inr (numProvedChecks it) \<and> py_int c = Inr (numChecks it)
      | Some _ \<Rightarrow> False
      | None \<Rightarrow>
          (case re_search proved_re l of
             Some [c] \<Rightarrow> py_int c = Inr (numChecks it) \<and> numProvedChecks it = numChecks it
           | _ \<Rightarrow> False))"

text \<open>
  The shape of the groups a pattern captures: one group for each \<open>Grp\<close> element, in
  order, each a non-empty string of characters of its class.
\<close>

fun groups_ok :: "tok list \<Rightarrow> string list \<Rightarrow> bool" where
  "groups_ok [] gs = (gs = [])"
| "groups_ok (Grp c # ts) gs =
     (case gs of
        [] \<Rightarrow> False
      | g # gs' \<Rightarrow> g \<noteq> [] \<and> list_all (in_cls c) g \<and> groups_ok ts gs')"
| "groups_ok (t # ts) gs = groups_ok ts gs"

text \<open>All items of a state, in order: those of the saved units, then those of the current one.\<close>

definition all_items :: "pstate \<Rightarrow> item list" where
  "all_items st = concat (map items (units (save_unit st)))"

text \<open>
  \<open>continues P s1 s2\<close> relates a state \<open>s1\<close> of a run that started with no current unit
  to the state \<open>s2\<close> of a run on the same lines that started after the units \<open>P\<close>: until
  the first unit header \<open>s2\<close> still holds \<open>P\<close> and nothing else; from then on both have
  the same current unit, and \<open>s2\<close> has saved \<open>P\<close> before the units \<open>s1\<close> has saved.
\<close>

definition continues :: "comp_unit list \<Rightarrow> pstate \<Rightarrow> pstate \<Rightarrow> bool" where
  "continues P s1 s2 =
     (case currentUnit s1 of
        None \<Rightarrow> units (save_unit s2) = P @ units (results s1)
      | Some u \<Rightarrow> currentUnit s2 = Some u \<and> units (results s2) = P @ units (results s1))"

section \<open>Properties of the matcher and of the parser\<close>

subsection \<open>The groups of a match\<close>

lemma in_cls_Digit [simp]: "in_cls Digit = is_digit"
  by (rule ext) simp

lemma in_cls_Dot [simp]: "in_cls Dot = (\<lambda>c. c \<noteq> nl)"
  by (rule ext) simp

lemma take_takeWhile_all:
  "k \<le> length (takeWhile P s) \<Longrightarrow> list_all P (take k s)"
proof (induction s arbitrary: k)
  case Nil
  then show ?case by simp
next
  case (Cons x xs)
  then show ?case by (cases k) (auto split: if_splits)
qed

lemma rplus_Some:
  "rplus ts s k = Some gs \<Longrightarrow>
   \<exists>j g'. 0 < j \<and> j \<le> k \<and> gs = take j s # g' \<and> rmatch False ts (drop j s) = Some g'"
proof (induction k)
  case 0
  then show ?case by simp
next
  case (Suc k)
  show ?case
  proof (cases "rmatch False ts (drop (Suc k) s)")
    case None
    with Suc.prems have "rplus ts s k = Some gs" by simp
    from Suc.IH [OF this] obtain j g' where
      "0 < j" "j \<le> k" "gs = take j s # g'" "rmatch False ts (drop j s) = Some g'"
      by blast
    then have "0 < j \<and> j \<le> Suc k \<and> gs = take j s # g' \<and> rmatch False ts (drop j s) = Some g'"
      by simp
    then show ?thesis by blast
  next
    case (Some g)
    with Suc.prems have "gs = take (Suc k) s # g" by simp
    with Some show ?thesis by blast
  qed
qed

lemma rmatch_groups_ok:
  "rmatch b ts s = Some gs \<Longrightarrow> groups_ok ts gs"
proof (induction ts arbitrary: b s gs)
  case Nil
  then show ?case by simp
next
  case (Cons t ts)
  show ?case
  proof (cases t)
    case Bol
    with Cons show ?thesis by (auto split: if_splits)
  next
    case Eol
    with Cons show ?thesis by (auto split: if_splits)
  next
    case (Lit l)
    with Cons show ?thesis by (auto split: if_splits)
  next
    case (Grp c)
    with Cons.prems have "rplus ts s (length (takeWhile (in_cls c) s)) = Some gs" by simp
    from rplus_Some [OF this] obtain j g' where
      j: "0 < j" "j \<le> length (takeWhile (in_cls c) s)" and
      gs: "gs = take j s # g'" and m: "rmatch False ts (drop j s) = Some g'"
      by blast
    have "take j s \<noteq> []"
      using j by (cases s) auto
    moreover have "list_all (in_cls c) (take j s)"
      using j(2) by (rule take_takeWhile_all)
    moreover have "groups_ok ts g'"
      using m by (rule Cons.IH)
    ultimately show ?thesis using Grp gs by simp
  qed
qed

lemma rsearch_groups_ok:
  "rsearch b ts s = Some gs \<Longrightarrow> groups_ok ts gs"
  by (induction s arbitrary: b) (auto split: option.splits dest: rmatch_groups_ok)

subsection \<open>Integers from matched digits\<close>

lemma digit_not_space: "is_digit c \<Longrightarrow> \<not> is_int_space c"
  by (auto simp: is_digit_def is_int_space_def)

lemma digit_not_special: "is_digit c \<Longrightarrow> c \<noteq> CHR ''_'' \<and> c \<noteq> CHR ''-'' \<and> c \<noteq> CHR ''+''"
  by (auto simp: is_digit_def)

lemma dropWhile_hd: "s \<noteq> [] \<Longrightarrow> \<not> P (hd s) \<Longrightarrow> dropWhile P s = s"
  by (cases s) auto

lemma strip_digits:
  assumes "s \<noteq> []" "list_all is_digit s"
  shows "rev (dropWhile is_int_space (rev (dropWhile is_int_space s))) = s"
proof -
  have "\<not> is_int_space (hd s)"
    using assms by (cases s) (auto dest: digit_not_space)
  then have a: "dropWhile is_int_space s = s"
    using assms(1) by (simp add: dropWhile_hd)
  have "\<not> is_int_space (hd (rev s))"
    using assms by (auto simp: hd_rev list_all_iff dest: digit_not_space)
  then have "dropWhile is_int_space (rev s) = rev s"
    using assms(1) by (simp add: dropWhile_hd)
  with a show ?thesis by simp
qed

lemma int_body_ok_digits:
  "s \<noteq> [] \<Longrightarrow> list_all is_digit s \<Longrightarrow> int_body_ok s"
  by (induction s rule: int_body_ok.induct) (auto dest: digit_not_special)

lemma filter_digits:
  "list_all is_digit s \<Longrightarrow> filter (\<lambda>c. c \<noteq> CHR ''_'') s = s"
  by (induction s) (auto dest: digit_not_special)

lemma py_int_digits:
  assumes "s \<noteq> []" "list_all is_digit s"
  shows "py_int s = Inr (decimal s)"
proof -
  have "is_digit (hd s)"
    using assms by (cases s) auto
  then have "hd s \<noteq> CHR ''-''" "hd s \<noteq> CHR ''+''"
    by (auto dest: digit_not_special)
  then show ?thesis
    using assms
    by (simp add: py_int_def strip_digits int_body_ok_digits filter_digits)
qed

lemma groups_analysis:
  "re_match analysis_re l = Some gs \<Longrightarrow> \<exists>n. gs = [n] \<and> py_int n = Inr (decimal n)"
  unfolding re_match_def
  by (drule rmatch_groups_ok) (auto simp: analysis_re_def py_int_digits split: list.splits)

lemma groups_unit:
  "re_match unit_re l = Some gs \<Longrightarrow>
   \<exists>n a t. gs = [n, a, t] \<and> py_int a = Inr (decimal a) \<and> py_int t = Inr (decimal t)"
  unfolding re_match_def
  by (drule rmatch_groups_ok) (auto simp: unit_re_def py_int_digits split: list.splits)

lemma groups_file:
  "re_match file_re l = Some gs \<Longrightarrow> \<exists>n f k. gs = [n, f, k]"
  unfolding re_match_def
  by (drule rmatch_groups_ok) (auto simp: file_re_def split: list.splits)

lemma groups_gen_file:
  "re_match gen_file_re l = Some gs \<Longrightarrow> \<exists>n f k fi ki. gs = [n, f, k, fi, ki]"
  unfolding re_match_def
  by (drule rmatch_groups_ok) (auto simp: gen_file_re_def split: list.splits)

lemma groups_suppr:
  "re_match suppr_msg_re l = Some gs \<Longrightarrow> \<exists>f k c m. gs = [f, k, c, m]"
  unfolding re_match_def
  by (drule rmatch_groups_ok) (auto simp: suppr_msg_re_def split: list.splits)

lemma groups_flow:
  "re_search flow_re l = Some gs \<Longrightarrow>
   \<exists>e w. gs = [e, w] \<and> py_int e = Inr (decimal e) \<and> py_int w = Inr (decimal w)"
  unfolding re_search_def
  by (drule rsearch_groups_ok) (auto simp: flow_re_def py_int_digits split: list.splits)

lemma groups_proved:
  "re_search proved_re l = Some gs \<Longrightarrow> \<exists>c. gs = [c] \<and> py_int c = Inr (decimal c)"
  unfolding re_search_def
  by (drule rsearch_groups_ok) (auto simp: proved_re_def py_int_digits split: list.splits)

lemma groups_not_proved:
  "re_search not_proved_re l = Some gs \<Longrightarrow>
   \<exists>p c. gs = [p, c] \<and> py_int p = Inr (decimal p) \<and> py_int c = Inr (decimal c)"
  unfolding re_search_def
  by (drule rsearch_groups_ok) (auto simp: not_proved_re_def py_int_digits split: list.splits)

subsection \<open>The blocks of the loop body\<close>

lemma analysis_block_eq:
  "analysis_block st l =
     Inr (case re_match analysis_re l of
            None \<Rightarrow> st
          | Some gs \<Rightarrow> st\<lparr>results := (results st)\<lparr>numUnitsAnalyzed := Some (decimal (hd gs))\<rparr>\<rparr>)"
proof (cases "re_match analysis_re l")
  case None
  then show ?thesis by (simp add: analysis_block_def)
next
  case (Some gs)
  from groups_analysis [OF this] obtain n where "gs = [n]" "py_int n = Inr (decimal n)"
    by blast
  with Some show ?thesis by (simp add: analysis_block_def)
qed

lemma unit_block_None:
  "re_match unit_re l = None \<Longrightarrow> unit_block st l = Inr st"
  by (simp add: unit_block_def)

lemma unit_block_Some:
  assumes "re_match unit_re l = Some gs"
  shows "\<exists>n a t. gs = [n, a, t] \<and> py_int a = Inr (decimal a) \<and> py_int t = Inr (decimal t) \<and>
           unit_block st l =
             Inr (st\<lparr>results := save_unit st,
                     currentUnit := Some \<lparr>unit_name = n, numAnalyzed = decimal a,
                                          numTotal = decimal t, items = []\<rparr>\<rparr>)"
proof -
  from groups_unit [OF assms] obtain n a t where
    "gs = [n, a, t]" "py_int a = Inr (decimal a)" "py_int t = Inr (decimal t)"
    by blast
  with assms show ?thesis by (simp add: unit_block_def)
qed

lemma flow_clause_Inr:
  "\<exists>it'. flow_clause it l = Inr it' \<and> proved it' = proved it \<and>
         numChecks it' = numChecks it \<and> numProvedChecks it' = numProvedChecks it \<and>
         suppressions it' = suppressions it"
proof (cases "re_search flow_re l")
  case None
  then show ?thesis by (simp add: flow_clause_def)
next
  case (Some gs)
  from groups_flow [OF this] obtain e w where
    "gs = [e, w]" "py_int e = Inr (decimal e)" "py_int w = Inr (decimal w)"
    by blast
  with Some show ?thesis by (simp add: flow_clause_def)
qed

lemma proved_clause_Inr:
  "\<exists>it'. proved_clause it l = Inr it' \<and> suppressions it' = suppressions it \<and>
     (case re_search proved_re l of
        None \<Rightarrow> it' = it
      | Some gs \<Rightarrow> \<exists>c. gs = [c] \<and> proved it' \<and> py_int c = Inr (numChecks it') \<and>
                        numProvedChecks it' = numChecks it')"
proof (cases "re_search proved_re l")
  case None
  then show ?thesis by (simp add: proved_clause_def)
next
  case (Some gs)
  from groups_proved [OF this] obtain c where "gs = [c]" "py_int c = Inr (decimal c)"
    by blast
  with Some show ?thesis by (simp add: proved_clause_def)
qed

lemma not_proved_clause_Inr:
  "\<exists>it'. not_proved_clause it l = Inr it' \<and> suppressions it' = suppressions it \<and>
     (case re_search not_proved_re l of
        None \<Rightarrow> it' = it
      | Some gs \<Rightarrow> \<exists>p c. gs = [p, c] \<and> proved it' \<and> py_int p = Inr (numProvedChecks it') \<and>
                        py_int c = Inr (numChecks it'))"
proof (cases "re_search not_proved_re l")
  case None
  then show ?thesis by (simp add: not_proved_clause_def)
next
  case (Some gs)
  from groups_not_proved [OF this] obtain p c where
    "gs = [p, c]" "py_int p = Inr (decimal p)" "py_int c = Inr (decimal c)"
    by blast
  with Some show ?thesis by (simp add: not_proved_clause_def)
qed

lemma add_item_eq:
  assumes "\<not> proved it0"
  shows "\<exists>it. suppressions it = suppressions it0 \<and> (proved it \<longrightarrow> proof_fields_from l it) \<and>
           (\<forall>st. add_item st l it0 = append_item st it)"
proof -
  obtain it1 where 1: "flow_clause it0 l = Inr it1" "proved it1 = proved it0"
    "suppressions it1 = suppressions it0"
    using flow_clause_Inr [of it0 l] by blast
  obtain it2 where 2: "proved_clause it1 l = Inr it2" "suppressions it2 = suppressions it1"
    "case re_search proved_re l of None \<Rightarrow> it2 = it1
     | Some gs \<Rightarrow> \<exists>c. gs = [c] \<and> proved it2 \<and> py_int c = Inr (numChecks it2) \<and>
                        numProvedChecks it2 = numChecks it2"
    using proved_clause_Inr [of it1 l] by blast
  obtain it3 where 3: "not_proved_clause it2 l = Inr it3" "suppressions it3 = suppressions it2"
    "case re_search not_proved_re l of None \<Rightarrow> it3 = it2
     | Some gs \<Rightarrow> \<exists>p c. gs = [p, c] \<and> proved it3 \<and> py_int p = Inr (numProvedChecks it3) \<and>
                        py_int c = Inr (numChecks it3)"
    using not_proved_clause_Inr [of it2 l] by blast
  have "proved it3 \<longrightarrow> proof_fields_from l it3"
    using assms 1(2) 2(3) 3(3)
    by (auto simp: proof_fields_from_def split: option.splits)
  moreover have "suppressions it3 = suppressions it0"
    using 1 2 3 by simp
  moreover have "\<forall>st. add_item st l it0 = append_item st it3"
    using 1(1) 2(1) 3(1) by (simp add: add_item_def)
  ultimately show ?thesis by blast
qed

lemma item_block_eq:
  "if is_item_line l
   then \<exists>it. suppressions it = [] \<and> (proved it \<longrightarrow> proof_fields_from l it) \<and>
          (\<forall>st. item_block st l = append_item st it)
   else \<forall>st. item_block st l = Inr st"
proof (cases "re_match gen_file_re l")
  case None
  note gen = this
  show ?thesis
  proof (cases "re_match file_re l")
    case None
    with gen show ?thesis by (simp add: is_item_line_def item_block_def)
  next
    case (Some gs)
    from groups_file [OF this] obtain n f k where gs: "gs = [n, f, k]" by blast
    have "\<not> proved (new_item n f k None None)" "suppressions (new_item n f k None None) = []"
      by (simp_all add: new_item_def)
    with add_item_eq [of "new_item n f k None None" l] show ?thesis
      using gen Some gs by (simp add: is_item_line_def item_block_def)
  qed
next
  case (Some gs)
  from groups_gen_file [OF this] obtain n f k fi ki where gs: "gs = [n, f, k, fi, ki]" by blast
  have "\<not> proved (new_item n f k (Some fi) (Some ki))"
    "suppressions (new_item n f k (Some fi) (Some ki)) = []"
    by (simp_all add: new_item_def)
  with add_item_eq [of "new_item n f k (Some fi) (Some ki)" l] show ?thesis
    using Some gs by (simp add: is_item_line_def item_block_def)
qed

lemma suppr_block_eq:
  "if is_suppr_line l
   then \<exists>s. \<forall>st. suppr_block st l = append_suppression st s
   else \<forall>st. suppr_block st l = Inr st"
proof (cases "re_match suppr_msg_re l")
  case None
  then show ?thesis by (simp add: is_suppr_line_def suppr_block_def)
next
  case (Some gs)
  from groups_suppr [OF this] obtain f k c m where "gs = [f, k, c, m]" by blast
  with Some show ?thesis
    by (auto simp: is_suppr_line_def suppr_block_def)
qed

subsection \<open>The first character of a recognised line\<close>

lemma rmatch_Bol_Lit:
  "rmatch True (Bol # Lit (c # x) # ts) s \<noteq> None \<Longrightarrow> \<exists>r. s = c # r"
  by (cases s) (simp_all split: if_splits)

lemma analysis_line_hd: "is_analysis_line l \<Longrightarrow> \<exists>r. l = CHR ''A'' # r"
  unfolding is_analysis_line_def re_match_def analysis_re_def
  by (rule rmatch_Bol_Lit)

lemma unit_line_hd: "is_unit_line l \<Longrightarrow> \<exists>r. l = CHR ''i'' # r"
  unfolding is_unit_line_def re_match_def unit_re_def
  by (rule rmatch_Bol_Lit)

lemma item_line_hd: "is_item_line l \<Longrightarrow> \<exists>r. l = CHR '' '' # r"
  unfolding is_item_line_def re_match_def file_re_def gen_file_re_def
  by (erule disjE) (erule rmatch_Bol_Lit)+

lemma suppr_line_hd: "is_suppr_line l \<Longrightarrow> \<exists>r. l = CHR '' '' # r"
  unfolding is_suppr_line_def re_match_def suppr_msg_re_def
  by (rule rmatch_Bol_Lit)

lemma analysis_line_excl:
  "is_analysis_line l \<Longrightarrow> \<not> is_unit_line l \<and> \<not> is_item_line l \<and> \<not> is_suppr_line l"
  by (auto dest: analysis_line_hd unit_line_hd item_line_hd suppr_line_hd)

lemma unit_line_excl:
  "is_unit_line l \<Longrightarrow> \<not> is_analysis_line l \<and> \<not> is_item_line l \<and> \<not> is_suppr_line l"
  by (auto dest: analysis_line_hd unit_line_hd item_line_hd suppr_line_hd)

lemma item_block_skip: "\<not> is_item_line l \<Longrightarrow> item_block st l = Inr st"
  using item_block_eq [of l] by simp

lemma suppr_block_skip: "\<not> is_suppr_line l \<Longrightarrow> suppr_block st l = Inr st"
  using suppr_block_eq [of l] by simp

lemma unit_block_skip: "\<not> is_unit_line l \<Longrightarrow> unit_block st l = Inr st"
  by (simp add: is_unit_line_def unit_block_None)

lemma analysis_block_skip: "\<not> is_analysis_line l \<Longrightarrow> analysis_block st l = Inr st"
  by (simp add: is_analysis_line_def analysis_block_eq)

lemma parse_line_analysis:
  "is_analysis_line l \<Longrightarrow> parse_line st l = analysis_block st l"
  using analysis_line_excl [of l]
  by (simp add: parse_line_def analysis_block_eq unit_block_skip item_block_skip suppr_block_skip)

lemma parse_line_unit:
  "is_unit_line l \<Longrightarrow> parse_line st l = unit_block st l"
proof -
  assume u: "is_unit_line l"
  then obtain gs where "re_match unit_re l = Some gs"
    by (auto simp: is_unit_line_def)
  from unit_block_Some [OF this, of st] obtain st' where "unit_block st l = Inr st'"
    by blast
  then show ?thesis
    using unit_line_excl [OF u]
    by (simp add: parse_line_def analysis_block_skip item_block_skip suppr_block_skip)
qed

lemma parse_line_other:
  "\<not> is_analysis_line l \<Longrightarrow> \<not> is_unit_line l \<Longrightarrow>
   parse_line st l = bind_err (item_block st l) (\<lambda>st3. suppr_block st3 l)"
  by (simp add: parse_line_def analysis_block_skip unit_block_skip)

subsection \<open>The proof clauses end the line\<close>

lemma rmatch_Eol_end:
  "rmatch b (ts @ [Lit x, Eol]) s = Some gs \<Longrightarrow> \<exists>u. s = u @ x \<or> s = u @ x @ [nl]"
proof (induction ts arbitrary: b s gs)
  case Nil
  then show ?case
    by (auto split: if_splits elim!: prefixE)
next
  case (Cons t ts)
  show ?case
  proof (cases t)
    case Bol
    with Cons.prems have "rmatch b (ts @ [Lit x, Eol]) s = Some gs"
      by (simp split: if_splits)
    then show ?thesis by (rule Cons.IH)
  next
    case Eol
    with Cons.prems have "rmatch b (ts @ [Lit x, tok.Eol]) s = Some gs"
      by (simp split: if_splits)
    then show ?thesis by (rule Cons.IH)
  next
    case (Lit l)
    with Cons.prems have p: "prefix l s"
      and m: "rmatch (b \<and> l = []) (ts @ [Lit x, Eol]) (drop (length l) s) = Some gs"
      by (simp_all split: if_splits)
    from Cons.IH [OF m] obtain u where
      "drop (length l) s = u @ x \<or> drop (length l) s = u @ x @ [nl]" by blast
    moreover have "s = l @ drop (length l) s"
      using p by (auto elim: prefixE)
    ultimately have "s = (l @ u) @ x \<or> s = (l @ u) @ x @ [nl]"
      by auto
    then show ?thesis by blast
  next
    case (Grp c)
    with Cons.prems have
      "rplus (ts @ [Lit x, Eol]) s (length (takeWhile (in_cls c) s)) = Some gs"
      by simp
    from rplus_Some [OF this] obtain j g' where
      m: "rmatch False (ts @ [Lit x, Eol]) (drop j s) = Some g'" by blast
    from Cons.IH [OF m] obtain u where
      "drop j s = u @ x \<or> drop j s = u @ x @ [nl]" by blast
    moreover have "s = take j s @ drop j s" by simp
    ultimately have "s = (take j s @ u) @ x \<or> s = (take j s @ u) @ x @ [nl]"
      by (metis append.assoc)
    then show ?thesis by blast
  qed
qed

lemma rsearch_rmatch:
  "rsearch b ts s = Some gs \<Longrightarrow> \<exists>b' v w. s = v @ w \<and> rmatch b' ts w = Some gs"
proof (induction s arbitrary: b)
  case Nil
  then show ?case by auto
next
  case (Cons c cs)
  show ?case
  proof (cases "rmatch b ts (c # cs)")
    case None
    with Cons.prems have "rsearch False ts cs = Some gs" by simp
    from Cons.IH [OF this] obtain b' v w where "cs = v @ w" "rmatch b' ts w = Some gs"
      by blast
    then have "c # cs = (c # v) @ w \<and> rmatch b' ts w = Some gs" by simp
    then show ?thesis by blast
  next
    case (Some g)
    with Cons.prems have "c # cs = [] @ (c # cs) \<and> rmatch b ts (c # cs) = Some gs" by simp
    then show ?thesis by blast
  qed
qed

lemma proved_line_end:
  assumes "re_search proved_re l \<noteq> None"
  shows "\<exists>u. l = u @ '' checks)'' \<or> l = u @ '' checks)'' @ [nl]"
proof -
  from assms obtain gs where "rsearch True proved_re l = Some gs"
    by (auto simp: re_search_def)
  from rsearch_rmatch [OF this] obtain b' v w where
    l: "l = v @ w" and m: "rmatch b' proved_re w = Some gs" by blast
  have "proved_re = [Lit ''proved ('', Grp Digit] @ [Lit '' checks)'', Eol]"
    by (simp add: proved_re_def)
  with m rmatch_Eol_end obtain u where "w = u @ '' checks)'' \<or> w = u @ '' checks)'' @ [nl]"
    by metis
  with l have "l = (v @ u) @ '' checks)'' \<or> l = (v @ u) @ '' checks)'' @ [nl]"
    by auto
  then show ?thesis by blast
qed

lemma not_proved_line_end:
  assumes "re_search not_proved_re l \<noteq> None"
  shows "\<exists>u. l = u @ '' proved'' \<or> l = u @ '' proved'' @ [nl]"
proof -
  from assms obtain gs where "rsearch True not_proved_re l = Some gs"
    by (auto simp: re_search_def)
  from rsearch_rmatch [OF this] obtain b' v w where
    l: "l = v @ w" and m: "rmatch b' not_proved_re w = Some gs" by blast
  have "not_proved_re =
    [Lit ''not proved, '', Grp Digit, Lit '' checks out of '', Grp Digit] @
    [Lit '' proved'', Eol]"
    by (simp add: not_proved_re_def)
  with m rmatch_Eol_end obtain u where "w = u @ '' proved'' \<or> w = u @ '' proved'' @ [nl]"
    by metis
  with l have "l = (v @ u) @ '' proved'' \<or> l = (v @ u) @ '' proved'' @ [nl]"
    by auto
  then show ?thesis by blast
qed

lemma proof_clauses_excl:
  "\<not> (re_search proved_re l \<noteq> None \<and> re_search not_proved_re l \<noteq> None)"
proof
  assume a: "re_search proved_re l \<noteq> None \<and> re_search not_proved_re l \<noteq> None"
  from a proved_line_end obtain u where
    u: "l = u @ '' checks)'' \<or> l = u @ '' checks)'' @ [nl]" by blast
  from a not_proved_line_end obtain v where
    v: "l = v @ '' proved'' \<or> l = v @ '' proved'' @ [nl]" by blast
  from u have 1: "last l = CHR '')'' \<or> (last l = nl \<and> last (butlast l) = CHR '')'')"
    by (auto simp: butlast_append)
  from v have 2: "last l = CHR ''d'' \<or> (last l = nl \<and> last (butlast l) = CHR ''d'')"
    by (auto simp: butlast_append)
  from 1 2 show False by (auto simp: nl_def)
qed

subsection \<open>The cases of the loop body\<close>

lemma parse_line_cases [consumes 1, case_names analysis unit plain item suppr both]:
  assumes "parse_line st l = Inr st'"
  obtains
    (analysis) x where "is_analysis_line l"
      "st' = st\<lparr>results := (results st)\<lparr>numUnitsAnalyzed := x\<rparr>\<rparr>"
  | (unit) new where "is_unit_line l" "from_header new l" "items new = []"
      "st' = st\<lparr>results := save_unit st, currentUnit := Some new\<rparr>"
  | (plain) "\<not> is_analysis_line l" "\<not> is_unit_line l" "\<not> is_item_line l"
      "\<not> is_suppr_line l" "st' = st"
  | (item) it where "\<not> is_unit_line l" "is_item_line l" "\<not> is_suppr_line l"
      "suppressions it = []" "proved it \<longrightarrow> proof_fields_from l it"
      "append_item st it = Inr st'"
  | (suppr) s where "\<not> is_unit_line l" "\<not> is_item_line l" "is_suppr_line l"
      "append_suppression st s = Inr st'"
  | (both) it s st3 where "\<not> is_unit_line l" "is_item_line l" "is_suppr_line l"
      "suppressions it = []" "proved it \<longrightarrow> proof_fields_from l it"
      "append_item st it = Inr st3" "append_suppression st3 s = Inr st'"
proof (cases "is_analysis_line l")
  case True
  with assms have "analysis_block st l = Inr st'"
    by (simp add: parse_line_analysis)
  then have "st' = st\<lparr>results := (results st)\<lparr>numUnitsAnalyzed :=
      (case re_match analysis_re l of None \<Rightarrow> numUnitsAnalyzed (results st)
       | Some gs \<Rightarrow> Some (decimal (hd gs)))\<rparr>\<rparr>"
    by (simp add: analysis_block_eq split: option.splits)
  with True show ?thesis by (rule analysis)
next
  case False
  note na = this
  show ?thesis
  proof (cases "is_unit_line l")
    case True
    then obtain gs where gs: "re_match unit_re l = Some gs"
      by (auto simp: is_unit_line_def)
    from unit_block_Some [OF gs, of st] obtain n a t where
      g: "gs = [n, a, t]" and a: "py_int a = Inr (decimal a)" and t: "py_int t = Inr (decimal t)"
      and ub: "unit_block st l =
             Inr (st\<lparr>results := save_unit st,
                     currentUnit := Some \<lparr>unit_name = n, numAnalyzed = decimal a,
                                          numTotal = decimal t, items = []\<rparr>\<rparr>)"
      by blast
    let ?new = "\<lparr>unit_name = n, numAnalyzed = decimal a, numTotal = decimal t, items = []\<rparr>"
    have "from_header ?new l"
      using gs g a t by (simp add: from_header_def)
    moreover have "items ?new = []" by simp
    moreover have "st' = st\<lparr>results := save_unit st, currentUnit := Some ?new\<rparr>"
      using assms True ub by (simp add: parse_line_unit)
    ultimately show ?thesis by (rule unit [OF True])
  next
    case False
    note nu = this
    from assms na nu have pl: "bind_err (item_block st l) (\<lambda>st3. suppr_block st3 l) = Inr st'"
      by (simp add: parse_line_other)
    show ?thesis
    proof (cases "is_item_line l")
      case False
      note ni = this
      with pl have sb: "suppr_block st l = Inr st'"
        by (simp add: item_block_skip)
      show ?thesis
      proof (cases "is_suppr_line l")
        case False
        with sb have "st' = st" by (simp add: suppr_block_skip)
        with na nu ni False show ?thesis by (rule plain)
      next
        case True
        with suppr_block_eq [of l] obtain s where
          "\<forall>st. suppr_block st l = append_suppression st s" by auto
        with sb have "append_suppression st s = Inr st'" by simp
        with nu ni True show ?thesis by (rule suppr)
      qed
    next
      case True
      with item_block_eq [of l] obtain it where
        it: "suppressions it = []" "proved it \<longrightarrow> proof_fields_from l it"
        and ib: "\<forall>st. item_block st l = append_item st it"
        by auto
      from pl ib obtain st3 where
        ai: "append_item st it = Inr st3" and sb: "suppr_block st3 l = Inr st'"
        by (cases "append_item st it") auto
      show ?thesis
      proof (cases "is_suppr_line l")
        case False
        with sb have "st' = st3" by (simp add: suppr_block_skip)
        with ai have "append_item st it = Inr st'" by simp
        with nu True False it show ?thesis by (rule item)
      next
        case s: True
        with suppr_block_eq [of l] obtain s where
          "\<forall>st. suppr_block st l = append_suppression st s" by auto
        with sb have "append_suppression st3 s = Inr st'" by simp
        with nu True s it ai show ?thesis by (rule both)
      qed
    qed
  qed
qed

lemma append_item_Inr:
  "append_item st it = Inr st' \<Longrightarrow>
   \<exists>u. currentUnit st = Some u \<and>
       st' = st\<lparr>currentUnit := Some (u\<lparr>items := items u @ [it]\<rparr>)\<rparr>"
  by (auto simp: append_item_def split: option.splits)

lemma append_suppression_Inr:
  "append_suppression st s = Inr st' \<Longrightarrow>
   \<exists>u. currentUnit st = Some u \<and> items u \<noteq> [] \<and>
       st' = st\<lparr>currentUnit := Some (u\<lparr>items := butlast (items u) @
         [(last (items u))\<lparr>suppressions := suppressions (last (items u)) @ [s]\<rparr>]\<rparr>)\<rparr>"
  by (auto simp: append_suppression_def split: option.splits if_splits)

lemma units_save_unit:
  "units (save_unit st) =
   units (results st) @ (case currentUnit st of None \<Rightarrow> [] | Some u \<Rightarrow> [u])"
  by (simp add: save_unit_def split: option.splits)

subsection \<open>Units and their header lines\<close>

lemma from_header_items [simp]: "from_header (u\<lparr>items := x\<rparr>) l = from_header u l"
  by (simp add: from_header_def split: option.splits list.splits)

lemma proof_fields_from_suppressions [simp]:
  "proof_fields_from l (it\<lparr>suppressions := x\<rparr>) = proof_fields_from l it"
  by (simp add: proof_fields_from_def split: option.splits list.splits)

lemma list_all2_snoc_cong:
  assumes "list_all2 P (xs @ [x]) hs" and "\<And>h. P x h \<Longrightarrow> P y h"
  shows "list_all2 P (xs @ [y]) hs"
  using assms by (auto simp: list_all2_append1 list_all2_Cons1)

lemma step_headers:
  assumes "parse_line st l = Inr st'"
    and "list_all2 from_header (units (save_unit st)) hs"
  shows "list_all2 from_header (units (save_unit st')) (hs @ filter is_unit_line [l])"
  using assms(1)
proof (cases rule: parse_line_cases)
  case (analysis x)
  then have "units (save_unit st') = units (save_unit st)" "\<not> is_unit_line l"
    by (auto simp: units_save_unit dest: analysis_line_excl)
  with assms(2) show ?thesis by simp
next
  case (unit new)
  then have "units (save_unit st') = units (save_unit st) @ [new]"
    by (simp add: units_save_unit)
  with unit assms(2) show ?thesis
    by (simp add: list_all2_appendI)
next
  case plain
  with assms(2) show ?thesis by simp
next
  case (item it)
  from append_item_Inr [OF item(6)] obtain u where
    "currentUnit st = Some u" "st' = st\<lparr>currentUnit := Some (u\<lparr>items := items u @ [it]\<rparr>)\<rparr>"
    by blast
  then have "units (save_unit st) = units (results st) @ [u]"
    "units (save_unit st') = units (results st) @ [u\<lparr>items := items u @ [it]\<rparr>]"
    by (simp_all add: units_save_unit)
  with assms(2) item(1) show ?thesis
    by (auto intro: list_all2_snoc_cong)
next
  case (suppr s)
  from append_suppression_Inr [OF suppr(4)] obtain u x where
    "currentUnit st = Some u" "st' = st\<lparr>currentUnit := Some (u\<lparr>items := x\<rparr>)\<rparr>"
    by blast
  then have "units (save_unit st) = units (results st) @ [u]"
    "units (save_unit st') = units (results st) @ [u\<lparr>items := x\<rparr>]"
    by (simp_all add: units_save_unit)
  with assms(2) suppr(1) show ?thesis
    by (auto intro: list_all2_snoc_cong)
next
  case (both it s st3)
  from append_item_Inr [OF both(6)] obtain u where
    u: "currentUnit st = Some u" "st3 = st\<lparr>currentUnit := Some (u\<lparr>items := items u @ [it]\<rparr>)\<rparr>"
    by blast
  from append_suppression_Inr [OF both(7)] obtain u3 x where
    "currentUnit st3 = Some u3" "st' = st3\<lparr>currentUnit := Some (u3\<lparr>items := x\<rparr>)\<rparr>"
    by blast
  with u have "units (save_unit st) = units (results st) @ [u]"
    "units (save_unit st') = units (results st) @ [u\<lparr>items := x\<rparr>]"
    by (auto simp: units_save_unit)
  with assms(2) both(1) show ?thesis
    by (auto intro: list_all2_snoc_cong)
qed

lemma run_headers:
  "run st ls = Inr st' \<Longrightarrow> list_all2 from_header (units (save_unit st)) hs \<Longrightarrow>
   list_all2 from_header (units (save_unit st')) (hs @ filter is_unit_line ls)"
proof (induction ls arbitrary: st hs)
  case Nil
  then show ?case by simp
next
  case (Cons l ls)
  from Cons.prems(1) obtain st1 where
    1: "parse_line st l = Inr st1" and 2: "run st1 ls = Inr st'"
    by (auto split: sum.splits)
  from step_headers [OF 1 Cons.prems(2)]
  have "list_all2 from_header (units (save_unit st1)) (hs @ filter is_unit_line [l])" .
  from Cons.IH [OF 2 this] show ?case by (cases "is_unit_line l") simp_all
qed

lemma parse_lines_headers:
  assumes "parse_lines ls = Inr r"
  shows "list_all2 from_header (units r) (filter is_unit_line ls)"
proof -
  from assms obtain st where st: "run init_state ls = Inr st" and r: "r = save_unit st"
    by (auto simp: parse_lines_def split: sum.splits)
  have "list_all2 from_header (units (save_unit init_state)) []"
    by (simp add: init_state_def save_unit_def)
  from run_headers [OF st this] r show ?thesis by simp
qed

subsection \<open>Items and their proof clauses\<close>

lemma all_items_eq:
  "all_items st =
   concat (map items (units (results st))) @
   (case currentUnit st of None \<Rightarrow> [] | Some u \<Rightarrow> items u)"
  by (simp add: all_items_def units_save_unit split: option.splits)

lemma all_items_append_item:
  "append_item st it = Inr st' \<Longrightarrow> all_items st' = all_items st @ [it]"
  by (auto simp: all_items_eq dest!: append_item_Inr)

lemma all_items_append_suppression:
  assumes "append_suppression st s = Inr st'"
  shows "all_items st \<noteq> [] \<and>
    all_items st' = butlast (all_items st) @
      [(last (all_items st))\<lparr>suppressions := suppressions (last (all_items st)) @ [s]\<rparr>]"
proof -
  from append_suppression_Inr [OF assms] obtain u where
    "currentUnit st = Some u" "items u \<noteq> []"
    "st' = st\<lparr>currentUnit := Some (u\<lparr>items := butlast (items u) @
         [(last (items u))\<lparr>suppressions := suppressions (last (items u)) @ [s]\<rparr>]\<rparr>)\<rparr>"
    by blast
  then show ?thesis
    by (simp add: all_items_eq butlast_append)
qed

lemma step_proof_fields:
  assumes "parse_line st l = Inr st'"
    and "\<forall>it\<in>set (all_items st). proved it \<longrightarrow> (\<exists>k\<in>S. proof_fields_from k it)"
  shows "\<forall>it\<in>set (all_items st'). proved it \<longrightarrow> (\<exists>k\<in>insert l S. proof_fields_from k it)"
  using assms(1)
proof (cases rule: parse_line_cases)
  case (analysis x)
  then have "all_items st' = all_items st" by (simp add: all_items_eq)
  with assms(2) show ?thesis by auto
next
  case (unit new)
  then have "all_items st' = all_items st"
    by (simp add: all_items_eq save_unit_def split: option.splits)
  with assms(2) show ?thesis by auto
next
  case plain
  with assms(2) show ?thesis by auto
next
  case (item it)
  from all_items_append_item [OF item(6)] item(5) assms(2) show ?thesis by auto
next
  case (suppr s)
  from all_items_append_suppression [OF suppr(4)]
  have ne: "all_items st \<noteq> []" and eq: "all_items st' = butlast (all_items st) @
      [(last (all_items st))\<lparr>suppressions := suppressions (last (all_items st)) @ [s]\<rparr>]"
    by simp_all
  from ne have "last (all_items st) \<in> set (all_items st)" by simp
  with assms(2) show ?thesis
    unfolding eq by (auto dest: in_set_butlastD)
next
  case (both it s st3)
  from all_items_append_item [OF both(6)] have 3: "all_items st3 = all_items st @ [it]" .
  from all_items_append_suppression [OF both(7)] 3
  have "all_items st' = all_items st @ [it\<lparr>suppressions := suppressions it @ [s]\<rparr>]"
    by simp
  with both(5) assms(2) show ?thesis by auto
qed

lemma run_proof_fields:
  "run st ls = Inr st' \<Longrightarrow>
   \<forall>it\<in>set (all_items st). proved it \<longrightarrow> (\<exists>k\<in>S. proof_fields_from k it) \<Longrightarrow>
   \<forall>it\<in>set (all_items st'). proved it \<longrightarrow> (\<exists>k\<in>S \<union> set ls. proof_fields_from k it)"
proof (induction ls arbitrary: st S)
  case Nil
  then show ?case by simp
next
  case (Cons l ls)
  from Cons.prems(1) obtain st1 where
    1: "parse_line st l = Inr st1" and 2: "run st1 ls = Inr st'"
    by (auto split: sum.splits)
  from Cons.IH [OF 2 step_proof_fields [OF 1 Cons.prems(2)]] show ?case by simp
qed

lemma parse_lines_proof_fields:
  assumes "parse_lines ls = Inr r" "u \<in> set (units r)" "it \<in> set (items u)" "proved it"
  shows "\<exists>l\<in>set ls. proof_fields_from l it"
proof -
  from assms(1) obtain st where st: "run init_state ls = Inr st" and r: "r = save_unit st"
    by (auto simp: parse_lines_def split: sum.splits)
  have "\<forall>it\<in>set (all_items init_state). proved it \<longrightarrow> (\<exists>k\<in>{}. proof_fields_from k it)"
    by (simp add: all_items_def init_state_def save_unit_def)
  from run_proof_fields [OF st this]
  have "\<forall>it\<in>set (all_items st). proved it \<longrightarrow> (\<exists>k\<in>set ls. proof_fields_from k it)"
    by simp
  moreover have "it \<in> set (all_items st)"
    using assms(2,3) r by (auto simp: all_items_def)
  ultimately show ?thesis using assms(4) by blast
qed

subsection \<open>Failures\<close>

lemma run_append:
  "run st (xs @ ys) = (case run st xs of Inl e \<Rightarrow> Inl e | Inr st' \<Rightarrow> run st' ys)"
  by (induction xs arbitrary: st) (auto split: sum.splits)









lemma parse_line_item_None:
  assumes "currentUnit st = None" "is_item_line l"
  shows "parse_line st l = Inl TypeError"
proof -
  from assms(2) have "\<not> is_analysis_line l" "\<not> is_unit_line l"
    using analysis_line_excl unit_line_excl by blast+
  then have "parse_line st l = bind_err (item_block st l) (\<lambda>st3. suppr_block st3 l)"
    by (rule parse_line_other)
  moreover from item_block_eq [of l] assms obtain it where "item_block st l = append_item st it"
    by auto
  ultimately show ?thesis
    using assms(1) by (simp add: append_item_def)
qed




subsection \<open>A summary line without digits\<close>





subsection \<open>Lines of a concatenated text\<close>

lemma universal_newlines_Cons:
  "c \<noteq> cr \<Longrightarrow> universal_newlines (c # s) = c # universal_newlines s"
  by (cases s) simp_all

lemma universal_newlines_append:
  "a = [] \<or> last a \<noteq> cr \<Longrightarrow>
   universal_newlines (a @ b) = universal_newlines a @ universal_newlines b"
proof (induction a rule: universal_newlines.induct)
  case 1
  then show ?case by simp
next
  case (2 c)
  then show ?case by (simp add: universal_newlines_Cons)
next
  case (3 c d s)
  then show ?case by (cases s) (auto simp: universal_newlines_Cons)
qed

lemma universal_newlines_last:
  "a \<noteq> [] \<Longrightarrow> last a = nl \<Longrightarrow>
   universal_newlines a \<noteq> [] \<and> last (universal_newlines a) = nl"
proof (induction a rule: universal_newlines.induct)
  case 1
  then show ?case by simp
next
  case (2 c)
  then show ?case by simp
next
  case (3 c d s)
  then show ?case by (cases s) (auto simp: nl_def cr_def)
qed

lemma split_lines_Nil: "split_lines s = [] \<longleftrightarrow> s = []"
  by (cases s) (auto split: list.splits)

lemma split_lines_append:
  "a = [] \<or> last a = nl \<Longrightarrow> split_lines (a @ b) = split_lines a @ split_lines b"
proof (induction a)
  case Nil
  then show ?case by simp
next
  case (Cons c a)
  show ?case
  proof (cases "c = nl")
    case True
    with Cons show ?thesis by (cases a) auto
  next
    case False
    with Cons.prems have a: "a \<noteq> []" "last a = nl" by (auto split: if_splits)
    with Cons.IH have "split_lines (a @ b) = split_lines a @ split_lines b" by simp
    moreover from a obtain l ls where "split_lines a = l # ls"
      by (cases "split_lines a") (auto simp: split_lines_Nil)
    ultimately show ?thesis using False by simp
  qed
qed

lemma file_lines_append:
  assumes "a = [] \<or> last a = nl"
  shows "file_lines (a @ b) = file_lines a @ file_lines b"
proof (cases "a = []")
  case True
  then show ?thesis by (simp add: file_lines_def)
next
  case False
  with assms have l: "last a = nl" by simp
  then have "last a \<noteq> cr" by (simp add: nl_def cr_def)
  then have "universal_newlines (a @ b) = universal_newlines a @ universal_newlines b"
    by (simp add: universal_newlines_append)
  moreover from universal_newlines_last [OF False l]
  have "last (universal_newlines a) = nl" by simp
  ultimately show ?thesis
    by (simp add: file_lines_def split_lines_append)
qed

subsection \<open>A run that starts after another one\<close>

lemma continues_init: "continues (units (save_unit s)) init_state s"
  by (simp add: continues_def init_state_def)

lemma continues_final:
  "continues P s1 s2 \<Longrightarrow> units (save_unit s2) = P @ units (save_unit s1)"
  by (auto simp: continues_def units_save_unit split: option.splits)

lemma step_continues:
  assumes c: "continues P s1 s2" and p: "parse_line s1 l = Inr s1'"
  shows "\<exists>s2'. parse_line s2 l = Inr s2' \<and> continues P s1' s2'"
proof (cases "is_analysis_line l")
  case True
  with p c show ?thesis
    by (auto simp: parse_line_analysis analysis_block_eq continues_def save_unit_def
        split: option.splits)
next
  case False
  note na = this
  show ?thesis
  proof (cases "is_unit_line l")
    case True
    then obtain gs where gs: "re_match unit_re l = Some gs"
      by (auto simp: is_unit_line_def)
    from unit_block_Some [OF gs, of s1] obtain n a t where
      1: "gs = [n, a, t]" "unit_block s1 l =
             Inr (s1\<lparr>results := save_unit s1,
                     currentUnit := Some \<lparr>unit_name = n, numAnalyzed = decimal a,
                                          numTotal = decimal t, items = []\<rparr>\<rparr>)"
      by blast
    from unit_block_Some [OF gs, of s2] 1(1) have
      2: "unit_block s2 l =
             Inr (s2\<lparr>results := save_unit s2,
                     currentUnit := Some \<lparr>unit_name = n, numAnalyzed = decimal a,
                                          numTotal = decimal t, items = []\<rparr>\<rparr>)"
      by auto
    from continues_final [OF c] have "units (save_unit s2) = P @ units (save_unit s1)" .
    with p 1(2) 2 True show ?thesis
      by (auto simp: parse_line_unit continues_def)
  next
    case False
    note nu = this
    from p na nu have p1: "bind_err (item_block s1 l) (\<lambda>st3. suppr_block st3 l) = Inr s1'"
      by (simp add: parse_line_other)
    have p2: "parse_line s2 l = bind_err (item_block s2 l) (\<lambda>st3. suppr_block st3 l)"
      using na nu by (rule parse_line_other)
    show ?thesis
    proof (cases "currentUnit s1")
      case None
      have ni: "\<not> is_item_line l"
        using p None na nu by (auto dest: parse_line_item_None)
      with p1 have sb: "suppr_block s1 l = Inr s1'" by (simp add: item_block_skip)
      have ns: "\<not> is_suppr_line l"
      proof
        assume "is_suppr_line l"
        with suppr_block_eq [of l] obtain s where "suppr_block s1 l = append_suppression s1 s"
          by auto
        with sb None show False by (simp add: append_suppression_def)
      qed
      with sb have "s1' = s1" by (simp add: suppr_block_skip)
      with c p2 ni ns show ?thesis
        by (simp add: item_block_skip suppr_block_skip)
    next
      case (Some u)
      with c have cu: "currentUnit s2 = Some u"
        and un: "units (results s2) = P @ units (results s1)"
        by (simp_all add: continues_def)
      obtain f where f: "\<forall>st. item_block st l = (case f of None \<Rightarrow> Inr st | Some it \<Rightarrow> append_item st it)"
      proof (cases "is_item_line l")
        case True
        with item_block_eq [of l] obtain it where "\<forall>st. item_block st l = append_item st it"
          by auto
        then have "\<forall>st. item_block st l = (case Some it of None \<Rightarrow> Inr st | Some it \<Rightarrow> append_item st it)"
          by simp
        then show ?thesis by (rule that)
      next
        case False
        with item_block_eq [of l]
        have "\<forall>st. item_block st l = (case None of None \<Rightarrow> Inr st | Some it \<Rightarrow> append_item st it)"
          by simp
        then show ?thesis by (rule that)
      qed
      obtain g where g: "\<forall>st. suppr_block st l =
          (case g of None \<Rightarrow> Inr st | Some s \<Rightarrow> append_suppression st s)"
      proof (cases "is_suppr_line l")
        case True
        with suppr_block_eq [of l] obtain s where "\<forall>st. suppr_block st l = append_suppression st s"
          by auto
        then have "\<forall>st. suppr_block st l =
            (case Some s of None \<Rightarrow> Inr st | Some s \<Rightarrow> append_suppression st s)"
          by simp
        then show ?thesis by (rule that)
      next
        case False
        with suppr_block_eq [of l]
        have "\<forall>st. suppr_block st l =
            (case None of None \<Rightarrow> Inr st | Some s \<Rightarrow> append_suppression st s)"
          by simp
        then show ?thesis by (rule that)
      qed
      from p1 p2 Some cu un show ?thesis
        unfolding f [rule_format] g [rule_format]
        by (auto simp: append_item_def append_suppression_def continues_def
            split: option.splits if_splits)
    qed
  qed
qed

lemma run_continues:
  "continues P s1 s2 \<Longrightarrow> run s1 ls = Inr s1' \<Longrightarrow>
   \<exists>s2'. run s2 ls = Inr s2' \<and> continues P s1' s2'"
proof (induction ls arbitrary: s1 s2)
  case Nil
  then show ?case by simp
next
  case (Cons l ls)
  from Cons.prems(2) obtain t1 where
    1: "parse_line s1 l = Inr t1" and 2: "run t1 ls = Inr s1'"
    by (auto split: sum.splits)
  from step_continues [OF Cons.prems(1) 1] obtain t2 where
    3: "parse_line s2 l = Inr t2" "continues P t1 t2" by blast
  from Cons.IH [OF 3(2) 2] 3(1) show ?case by simp
qed

lemma parse_lines_append:
  assumes "parse_lines a = Inr ra" "parse_lines b = Inr rb"
  shows "\<exists>r. parse_lines (a @ b) = Inr r \<and> units r = units ra @ units rb"
proof -
  from assms(1) obtain sa where sa: "run init_state a = Inr sa" "ra = save_unit sa"
    by (auto simp: parse_lines_def split: sum.splits)
  from assms(2) obtain sb where sb: "run init_state b = Inr sb" "rb = save_unit sb"
    by (auto simp: parse_lines_def split: sum.splits)
  from run_continues [OF continues_init sb(1), of sa] obtain sc where
    sc: "run sa b = Inr sc" "continues (units (save_unit sa)) sb sc" by blast
  from continues_final [OF sc(2)] sa(2) sb(2)
  have "units (save_unit sc) = units ra @ units rb" by simp
  moreover have "parse_lines (a @ b) = Inr (save_unit sc)"
    using sa(1) sc(1) by (simp add: parse_lines_def run_append)
  ultimately show ?thesis by blast
qed

subsection \<open>Division of integers\<close>

lemma floor_rat_numeral [simp]:
  "\<lfloor>(numeral a :: rat) / numeral b\<rfloor> = numeral a div numeral b"
  by (metis floor_divide_of_int_eq of_int_numeral)


lemma round_half_even_int [simp]: "round_half_even (of_int n) = n"
  by (simp add: round_half_even_def)


lemma quotient_exponent_less:
  assumes "0 < a" "0 < b"
  shows "(of_int a / of_int b :: rat) < power_int 2 (quotient_exponent a b + 1)"
proof -
  let ?k = "bitlen a - bitlen b"
  have ra: "(0::rat) < of_int a" and rb: "(0::rat) < of_int b" using assms by simp_all
  show ?thesis
  proof (cases "if 0 \<le> ?k then b * 2 ^ nat ?k \<le> a else b \<le> a * 2 ^ nat (- ?k)")
    case False
    then have e: "quotient_exponent a b = ?k - 1"
      by (simp add: quotient_exponent_def Let_def)
    show ?thesis
    proof (cases "0 \<le> ?k")
      case k: True
      with False have "a < b * 2 ^ nat ?k" by simp
      then have "(of_int a :: rat) < of_int (b * 2 ^ nat ?k)" by (simp only: of_int_less_iff)
      then have "(of_int a :: rat) < of_int b * 2 ^ nat ?k" by simp
      then have "of_int a / of_int b < (2 :: rat) ^ nat ?k"
        using rb by (simp add: pos_divide_less_eq mult.commute)
      moreover have "power_int (2::rat) ?k = 2 ^ nat ?k"
        using k by (simp add: power_int_def)
      ultimately show ?thesis using e by simp
    next
      case k: False
      with False have "a * 2 ^ nat (- ?k) < b" by simp
      then have "(of_int (a * 2 ^ nat (- ?k)) :: rat) < of_int b" by (simp only: of_int_less_iff)
      then have "(of_int a :: rat) * 2 ^ nat (- ?k) < of_int b" by simp
      then have "of_int a / of_int b < 1 / (2 :: rat) ^ nat (- ?k)"
        using rb by (simp add: field_simps)
      moreover have "power_int (2::rat) ?k = 1 / 2 ^ nat (- ?k)"
        using k by (simp add: power_int_def field_simps)
      ultimately show ?thesis using e by simp
    qed
  next
    case True
    then have e: "quotient_exponent a b = ?k"
      by (simp add: quotient_exponent_def Let_def)
    from bitlen_bounds [OF assms(1)] have "a < 2 ^ nat (bitlen a)" by simp
    then have "(of_int a :: rat) < of_int (2 ^ nat (bitlen a))" by (simp only: of_int_less_iff)
    then have ua: "(of_int a :: rat) < 2 ^ nat (bitlen a)" by simp
    from bitlen_bounds [OF assms(2)] have "2 ^ nat (bitlen b - 1) \<le> b" by simp
    then have "(of_int (2 ^ nat (bitlen b - 1)) :: rat) \<le> of_int b" by (simp only: of_int_le_iff)
    then have lb: "(2 :: rat) ^ nat (bitlen b - 1) \<le> of_int b" by simp
    have pa: "1 \<le> bitlen a" "1 \<le> bitlen b"
      using assms by (simp_all add: bitlen_alt_def)
    have "of_int a / of_int b \<le> of_int a / (2 :: rat) ^ nat (bitlen b - 1)"
      using lb ra by (simp add: frac_le)
    also have "\<dots> < 2 ^ nat (bitlen a) / (2 :: rat) ^ nat (bitlen b - 1)"
      using ua by (simp add: divide_strict_right_mono)
    also have "\<dots> = power_int (2::rat) (?k + 1)"
    proof -
      have "?k + 1 = bitlen a + (- (bitlen b - 1))" by simp
      then have "power_int (2::rat) (?k + 1) =
          power_int 2 (bitlen a) * power_int 2 (- (bitlen b - 1))"
        by (simp only: power_int_add [of "2::rat", simplified])
      also have "power_int (2::rat) (bitlen a) = 2 ^ nat (bitlen a)"
        using pa by (simp add: power_int_def)
      also have "power_int (2::rat) (- (bitlen b - 1)) = 1 / 2 ^ nat (bitlen b - 1)"
        using pa by (simp add: power_int_def field_simps)
      finally show ?thesis by simp
    qed
    finally show ?thesis using e by simp
  qed
qed

lemma true_divide_same:
  assumes "0 < c"
  shows "true_divide c c = Inr 1"
proof -
  have "quotient_exponent c c = 0"
    using assms by (simp add: quotient_exponent_def)
  moreover have "round_half_even 4503599627370496 = 4503599627370496"
    using round_half_even_int [of 4503599627370496] by simp
  ultimately show ?thesis
    using assms by (simp add: true_divide_def power_int_minus Let_def)
qed








subsection \<open>The report of the scenario\<close>

lemma scenario_report:
  "parse_gnatprove_report
     (''Analyzed 1 units'' @ [nl] @
      ''in unit Foo, 2 subprograms and packages out of 2 analyzed'' @ [nl] @
      ''  Foo.Bar at foo.adb:10 flow analyzed (0 errors and 1 warnings)'' @ [nl] @
      ''  Foo.Baz at foo.adb:20 proved (3 checks)'' @ [nl]) =
   Inr \<lparr>numUnitsAnalyzed = Some 1,
        units =
          [\<lparr>unit_name = ''Foo'', numAnalyzed = 2, numTotal = 2,
            items =
              [\<lparr>item_name = ''Foo.Bar'', fileName = ''foo.adb'', lineNumber = ''10'',
                instFileName = None, instLineNumber = None, suppressions = [],
                numFlowErrors = 0, numFlowWarnings = 1, numChecks = 0,
                numProvedChecks = 0, flowAnalyzed = True, proved = False\<rparr>,
               \<lparr>item_name = ''Foo.Baz'', fileName = ''foo.adb'', lineNumber = ''20'',
                instFileName = None, instLineNumber = None, suppressions = [],
                numFlowErrors = 0, numFlowWarnings = 0, numChecks = 3,
                numProvedChecks = 3, flowAnalyzed = False, proved = True\<rparr>]\<rparr>]\<rparr>"
  by code_simp

section \<open>The scenario of the specification\<close>

text \<open>
  Claim C1. On the four-line report of the specification's scenario the parser returns a
  report with \<open>numUnitsAnalyzed = 1\<close> and the single unit \<open>Foo\<close> (2 analyzed out of 2) that
  holds exactly two items, in this order: \<open>Foo.Bar\<close> (file \<open>foo.adb\<close>, line 10, flow
  analyzed with 0 errors and 1 warning, not proved) and \<open>Foo.Baz\<close> (file \<open>foo.adb\<close>,
  line 20, proved, 3 checks of which 3 are proved). The proof ratio of \<open>Foo.Baz\<close>,
  \<^verbatim>\<open>to_percent\<close> of its two counts 3 and 3, is the float 1.
\<close>

theorem C1_scenario:
  "parse_gnatprove_report
     (''Analyzed 1 units'' @ [nl] @
      ''in unit Foo, 2 subprograms and packages out of 2 analyzed'' @ [nl] @
      ''  Foo.Bar at foo.adb:10 flow analyzed (0 errors and 1 warnings)'' @ [nl] @
      ''  Foo.Baz at foo.adb:20 proved (3 checks)'' @ [nl]) =
   Inr \<lparr>numUnitsAnalyzed = Some 1,
        units =
          [\<lparr>unit_name = ''Foo'', numAnalyzed = 2, numTotal = 2,
            items =
              [\<lparr>item_name = ''Foo.Bar'', fileName = ''foo.adb'', lineNumber = ''10'',
                instFileName = None, instLineNumber = None, suppressions = [],
                numFlowErrors = 0, numFlowWarnings = 1, numChecks = 0,
                numProvedChecks = 0, flowAnalyzed = True, proved = False\<rparr>,
               \<lparr>item_name = ''Foo.Baz'', fileName = ''foo.adb'', lineNumber = ''20'',
                instFileName = None, instLineNumber = None, suppressions = [],
                numFlowErrors = 0, numFlowWarnings = 0, numChecks = 3,
                numProvedChecks = 3, flowAnalyzed = False, proved = True\<rparr>]\<rparr>]\<rparr> \<and>
   to_percent 3 3 = Inr (PyFloat 1)"
  using scenario_report by (simp add: to_percent_def true_divide_same)

section \<open>Units and unit headers\<close>

text \<open>
  Claim C2. When the parser returns a report, the report has as many units as the input
  has lines of the unit-header shape, the units stand in the order of their header lines
  (the \<open>i\<close>-th unit has the name and the two counts of the \<open>i\<close>-th header line), and the
  unit under construction when the input ends is saved as the last unit of the report.
\<close>

theorem C2_units_follow_headers:
  assumes "parse_gnatprove_report text = Inr r"
  shows "length (units r) = length (filter is_unit_line (file_lines text)) \<and>
         list_all2 from_header (units r) (filter is_unit_line (file_lines text)) \<and>
         (\<exists>st. run init_state (file_lines text) = Inr st \<and>
               units r = units (results st) @
                 (case currentUnit st of None \<Rightarrow> [] | Some u \<Rightarrow> [u]))"
proof -
  from assms have p: "parse_lines (file_lines text) = Inr r"
    by (simp add: parse_gnatprove_report_def)
  from parse_lines_headers [OF p]
  have h: "list_all2 from_header (units r) (filter is_unit_line (file_lines text))" .
  then have "length (units r) = length (filter is_unit_line (file_lines text))"
    by (rule list_all2_lengthD)
  moreover from p obtain st where "run init_state (file_lines text) = Inr st" "r = save_unit st"
    by (auto simp: parse_lines_def split: sum.splits)
  then have "\<exists>st. run init_state (file_lines text) = Inr st \<and>
               units r = units (results st) @
                 (case currentUnit st of None \<Rightarrow> [] | Some u \<Rightarrow> [u])"
    by (auto simp: units_save_unit)
  ultimately show ?thesis using h by blast
qed

text \<open>A report of two units, the second one still under construction at the end.\<close>

theorem C2_units_follow_headers_witness:
  "parse_gnatprove_report
     (''in unit A, 1 subprograms and packages out of 1 analyzed'' @ [nl] @
      ''  A.P at a.adb:1'' @ [nl] @
      ''in unit B, 0 subprograms and packages out of 2 analyzed'' @ [nl]) =
   Inr \<lparr>numUnitsAnalyzed = None,
        units =
          [\<lparr>unit_name = ''A'', numAnalyzed = 1, numTotal = 1,
            items = [new_item ''A.P'' ''a.adb'' ''1'' None None]\<rparr>,
           \<lparr>unit_name = ''B'', numAnalyzed = 0, numTotal = 2, items = []\<rparr>]\<rparr> \<and>
   length (filter is_unit_line (file_lines
     (''in unit A, 1 subprograms and packages out of 1 analyzed'' @ [nl] @
      ''  A.P at a.adb:1'' @ [nl] @
      ''in unit B, 0 subprograms and packages out of 2 analyzed'' @ [nl]))) = 2"
proof -
  have h: "parse_gnatprove_report
     (''in unit A, 1 subprograms and packages out of 1 analyzed'' @ [nl] @
      ''  A.P at a.adb:1'' @ [nl] @
      ''in unit B, 0 subprograms and packages out of 2 analyzed'' @ [nl]) =
   Inr \<lparr>numUnitsAnalyzed = None,
        units =
          [\<lparr>unit_name = ''A'', numAnalyzed = 1, numTotal = 1,
            items = [new_item ''A.P'' ''a.adb'' ''1'' None None]\<rparr>,
           \<lparr>unit_name = ''B'', numAnalyzed = 0, numTotal = 2, items = []\<rparr>]\<rparr>"
    by code_simp
  from C2_units_follow_headers [OF h] h show ?thesis by simp
qed

section \<open>A suppression line with no item to attach to\<close>




section \<open>The check counts of a proved item\<close>

text \<open>
  Claim C4 says that every item with \<open>proved\<close> set has \<open>numProvedChecks \<le> numChecks\<close>.
  The parser copies the two numbers of a clause \<^verbatim>\<open>not proved, P checks out of C proved\<close>
  without comparing them: for \<open>P = 5\<close> and \<open>C = 2\<close> the item has 5 proved checks out of 2.
\<close>

theorem C4_more_proved_than_checks_counterexample:
  "parse_gnatprove_report
     (''in unit U, 1 subprograms and packages out of 1 analyzed'' @ [nl] @
      ''  U.P at u.adb:1 not proved, 5 checks out of 2 proved'' @ [nl]) =
   Inr \<lparr>numUnitsAnalyzed = None,
        units =
          [\<lparr>unit_name = ''U'', numAnalyzed = 1, numTotal = 1,
            items =
              [\<lparr>item_name = ''U.P'', fileName = ''u.adb'', lineNumber = ''1'',
                instFileName = None, instLineNumber = None, suppressions = [],
                numFlowErrors = 0, numFlowWarnings = 0, numChecks = 2,
                numProvedChecks = 5, flowAnalyzed = False, proved = True\<rparr>]\<rparr>]\<rparr>"
  by code_simp

text \<open>
  Claim C4, amended. Every item of the returned report with \<open>proved\<close> set has its two
  counts from the proof clause of a line of the input: \<open>numProvedChecks = P\<close> and
  \<open>numChecks = C\<close> for \<^verbatim>\<open>not proved, P checks out of C proved\<close>, and
  \<open>numProvedChecks = numChecks = C\<close> for \<^verbatim>\<open>proved (C checks)\<close>. So
  \<open>numProvedChecks \<le> numChecks\<close> holds for the item whenever \<open>P \<le> C\<close> holds in every
  \<^verbatim>\<open>not proved\<close> clause of the input.
\<close>

theorem C4_proof_counts:
  assumes "parse_gnatprove_report text = Inr r"
    and "u \<in> set (units r)" and "it \<in> set (items u)" and "proved it"
  shows "(\<exists>l\<in>set (file_lines text). proof_fields_from l it) \<and>
         ((\<forall>l\<in>set (file_lines text). \<forall>p c. re_search not_proved_re l = Some [p, c] \<longrightarrow>
              decimal p \<le> decimal c) \<longrightarrow>
          numProvedChecks it \<le> numChecks it)"
proof -
  from assms(1) have "parse_lines (file_lines text) = Inr r"
    by (simp add: parse_gnatprove_report_def)
  from parse_lines_proof_fields [OF this assms(2,3,4)] obtain l where
    l: "l \<in> set (file_lines text)" "proof_fields_from l it" by blast
  have "numProvedChecks it \<le> numChecks it"
    if le: "\<forall>l\<in>set (file_lines text). \<forall>p c. re_search not_proved_re l = Some [p, c] \<longrightarrow>
              decimal p \<le> decimal c"
  proof (cases "re_search not_proved_re l")
    case None
    with l(2) show ?thesis
      by (auto simp: proof_fields_from_def split: option.splits list.splits)
  next
    case (Some gs)
    from groups_not_proved [OF this] obtain p c where
      g: "gs = [p, c]" "py_int p = Inr (decimal p)" "py_int c = Inr (decimal c)"
      by blast
    with l(2) Some have "numProvedChecks it = decimal p" "numChecks it = decimal c"
      by (simp_all add: proof_fields_from_def)
    moreover from le l(1) Some g(1) have "decimal p \<le> decimal c" by blast
    ultimately show ?thesis by simp
  qed
  with l show ?thesis by blast
qed

text \<open>An item with 2 proved checks out of 5.\<close>

theorem C4_proof_counts_witness:
  "parse_gnatprove_report
     (''in unit U, 1 subprograms and packages out of 1 analyzed'' @ [nl] @
      ''  U.P at u.adb:1 not proved, 2 checks out of 5 proved'' @ [nl]) =
   Inr \<lparr>numUnitsAnalyzed = None,
        units =
          [\<lparr>unit_name = ''U'', numAnalyzed = 1, numTotal = 1,
            items = [(new_item ''U.P'' ''u.adb'' ''1'' None None)
                       \<lparr>numChecks := 5, numProvedChecks := 2, proved := True\<rparr>]\<rparr>]\<rparr> \<and>
   (\<exists>l\<in>set (file_lines
       (''in unit U, 1 subprograms and packages out of 1 analyzed'' @ [nl] @
        ''  U.P at u.adb:1 not proved, 2 checks out of 5 proved'' @ [nl])).
      proof_fields_from l ((new_item ''U.P'' ''u.adb'' ''1'' None None)
                       \<lparr>numChecks := 5, numProvedChecks := 2, proved := True\<rparr>))"
proof -
  let ?t = "''in unit U, 1 subprograms and packages out of 1 analyzed'' @ [nl] @
      ''  U.P at u.adb:1 not proved, 2 checks out of 5 proved'' @ [nl]"
  let ?it = "(new_item ''U.P'' ''u.adb'' ''1'' None None)
                       \<lparr>numChecks := 5, numProvedChecks := 2, proved := True\<rparr>"
  let ?u = "\<lparr>unit_name = ''U'', numAnalyzed = 1, numTotal = 1, items = [?it]\<rparr>"
  have h: "parse_gnatprove_report ?t = Inr \<lparr>numUnitsAnalyzed = None, units = [?u]\<rparr>"
    by code_simp
  have "?u \<in> set (units \<lparr>numUnitsAnalyzed = None, units = [?u]\<rparr>)" by simp
  moreover have "?it \<in> set (items ?u)" by simp
  moreover have "proved ?it" by simp
  ultimately show ?thesis
    using C4_proof_counts [OF h, of ?u ?it] h by blast
qed

section \<open>The proof ratio of two counts\<close>




section \<open>Fields that are not numbers\<close>




section \<open>One line, several recognisers\<close>

text \<open>
  Claim C7 says that the actions of at most one of the four recognisers are applied to a
  line, and that a line processed as an item line is never processed as a suppression
  line too. The four blocks of the loop body are independent \<^verbatim>\<open>if\<close> statements, and the
  line below has both shapes: it creates an item and attaches a suppression to it.
\<close>

theorem C7_item_and_suppression_counterexample:
  "is_item_line (''    a at b:1:2: m'' @ [nl]) \<and>
   is_suppr_line (''    a at b:1:2: m'' @ [nl]) \<and>
   parse_line
     \<lparr>results = \<lparr>numUnitsAnalyzed = None, units = []\<rparr>,
      currentUnit = Some \<lparr>unit_name = ''U'', numAnalyzed = 1, numTotal = 1, items = []\<rparr>\<rparr>
     (''    a at b:1:2: m'' @ [nl]) =
   Inr \<lparr>results = \<lparr>numUnitsAnalyzed = None, units = []\<rparr>,
        currentUnit = Some \<lparr>unit_name = ''U'', numAnalyzed = 1, numTotal = 1,
          items =
            [\<lparr>item_name = ''  a'', fileName = ''b:1'', lineNumber = ''2'',
              instFileName = None, instLineNumber = None,
              suppressions =
                [\<lparr>suppr_fileName = ''a at b'', suppr_lineNumber = ''1'', column = ''2'',
                  message = ''m''\<rparr>],
              numFlowErrors = 0, numFlowWarnings = 0, numChecks = 0,
              numProvedChecks = 0, flowAnalyzed = False, proved = False\<rparr>]\<rparr>\<rparr>"
  by code_simp

text \<open>
  Claim C7, amended. On every line the loop body applies the actions of exactly one of
  three groups: the summary block alone, the unit-header block alone, or the item block
  followed by the suppression block. A summary line and a unit header line have no other
  shape; the item shape and the suppression shape do not exclude each other.
\<close>

theorem C7_one_group_of_actions:
  "parse_line st l =
     (if is_analysis_line l then analysis_block st l
      else if is_unit_line l then unit_block st l
      else bind_err (item_block st l) (\<lambda>st3. suppr_block st3 l)) \<and>
   (is_analysis_line l \<longrightarrow> \<not> is_unit_line l \<and> \<not> is_item_line l \<and> \<not> is_suppr_line l) \<and>
   (is_unit_line l \<longrightarrow> \<not> is_analysis_line l \<and> \<not> is_item_line l \<and> \<not> is_suppr_line l)"
  using analysis_line_excl [of l] unit_line_excl [of l]
  by (auto simp: parse_line_analysis parse_line_unit parse_line_other)

text \<open>A unit header line has that shape only, and only the unit block acts on it.\<close>

theorem C7_one_group_of_actions_witness:
  "is_unit_line (''in unit U, 1 subprograms and packages out of 1 analyzed'' @ [nl]) \<and>
   \<not> is_analysis_line (''in unit U, 1 subprograms and packages out of 1 analyzed'' @ [nl]) \<and>
   \<not> is_item_line (''in unit U, 1 subprograms and packages out of 1 analyzed'' @ [nl]) \<and>
   \<not> is_suppr_line (''in unit U, 1 subprograms and packages out of 1 analyzed'' @ [nl]) \<and>
   parse_line init_state (''in unit U, 1 subprograms and packages out of 1 analyzed'' @ [nl]) =
   unit_block init_state (''in unit U, 1 subprograms and packages out of 1 analyzed'' @ [nl])"
proof -
  have "is_unit_line (''in unit U, 1 subprograms and packages out of 1 analyzed'' @ [nl])"
    by code_simp
  with C7_one_group_of_actions
    [of init_state "''in unit U, 1 subprograms and packages out of 1 analyzed'' @ [nl]"]
  show ?thesis by simp
qed

section \<open>The trailing clauses of an item line\<close>

text \<open>
  Claim C8 says that at most one of the three trailing clauses fires on a line. The flow
  clause and a proof clause are searched independently, and an item line can carry both:
  the item below is flow analyzed and proved.
\<close>

theorem C8_flow_and_proof_counterexample:
  "re_search flow_re
     (''  U.P at u.adb:1 flow analyzed (0 errors and 2 warnings) and proved (3 checks)'' @ [nl]) =
     Some [''0'', ''2''] \<and>
   re_search proved_re
     (''  U.P at u.adb:1 flow analyzed (0 errors and 2 warnings) and proved (3 checks)'' @ [nl]) =
     Some [''3''] \<and>
   parse_gnatprove_report
     (''in unit U, 1 subprograms and packages out of 1 analyzed'' @ [nl] @
      ''  U.P at u.adb:1 flow analyzed (0 errors and 2 warnings) and proved (3 checks)'' @ [nl]) =
   Inr \<lparr>numUnitsAnalyzed = None,
        units =
          [\<lparr>unit_name = ''U'', numAnalyzed = 1, numTotal = 1,
            items =
              [\<lparr>item_name = ''U.P'', fileName = ''u.adb'', lineNumber = ''1'',
                instFileName = None, instLineNumber = None, suppressions = [],
                numFlowErrors = 0, numFlowWarnings = 2, numChecks = 3,
                numProvedChecks = 3, flowAnalyzed = True, proved = True\<rparr>]\<rparr>]\<rparr>"
  by code_simp

text \<open>
  Claim C8, amended. At most one of the two proof clauses, \<^verbatim>\<open>proved (C checks)\<close> and
  \<^verbatim>\<open>not proved, P checks out of C proved\<close>, matches a line: both are anchored at the end
  of the line. The flow clause can match together with either of them.
\<close>

theorem C8_proof_clauses_exclusive:
  "\<not> (re_search proved_re l \<noteq> None \<and> re_search not_proved_re l \<noteq> None)"
  by (rule proof_clauses_excl)

section \<open>Concatenated reports\<close>

text \<open>
  Claim C9. For two texts \<open>a\<close> and \<open>b\<close> that the parser accepts, \<open>a\<close> ending with a line
  feed (or empty), the parser accepts the concatenation of \<open>a\<close> and \<open>b\<close>, and the units
  of its report are the units of the report of \<open>a\<close> followed by those of the report of
  \<open>b\<close>.
\<close>

theorem C9_concatenation:
  assumes "a = [] \<or> last a = nl"
    and "parse_gnatprove_report a = Inr ra"
    and "parse_gnatprove_report b = Inr rb"
  shows "\<exists>r. parse_gnatprove_report (a @ b) = Inr r \<and> units r = units ra @ units rb"
  using assms parse_lines_append [of "file_lines a" ra "file_lines b" rb]
  by (simp add: parse_gnatprove_report_def file_lines_append)

text \<open>Two reports of one unit each.\<close>

theorem C9_concatenation_witness:
  "parse_gnatprove_report
     (''in unit A, 1 subprograms and packages out of 1 analyzed'' @ [nl] @
      ''  A.P at a.adb:1'' @ [nl]) =
   Inr \<lparr>numUnitsAnalyzed = None,
        units = [\<lparr>unit_name = ''A'', numAnalyzed = 1, numTotal = 1,
                  items = [new_item ''A.P'' ''a.adb'' ''1'' None None]\<rparr>]\<rparr> \<and>
   parse_gnatprove_report
     (''Analyzed 1 units'' @ [nl] @
      ''in unit B, 0 subprograms and packages out of 2 analyzed'' @ [nl]) =
   Inr \<lparr>numUnitsAnalyzed = Some 1,
        units = [\<lparr>unit_name = ''B'', numAnalyzed = 0, numTotal = 2, items = []\<rparr>]\<rparr> \<and>
   (\<exists>r. parse_gnatprove_report
          ((''in unit A, 1 subprograms and packages out of 1 analyzed'' @ [nl] @
            ''  A.P at a.adb:1'' @ [nl]) @
           (''Analyzed 1 units'' @ [nl] @
            ''in unit B, 0 subprograms and packages out of 2 analyzed'' @ [nl])) = Inr r \<and>
        units r =
          [\<lparr>unit_name = ''A'', numAnalyzed = 1, numTotal = 1,
            items = [new_item ''A.P'' ''a.adb'' ''1'' None None]\<rparr>,
           \<lparr>unit_name = ''B'', numAnalyzed = 0, numTotal = 2, items = []\<rparr>])"
proof -
  let ?a = "''in unit A, 1 subprograms and packages out of 1 analyzed'' @ [nl] @
      ''  A.P at a.adb:1'' @ [nl]"
  let ?b = "''Analyzed 1 units'' @ [nl] @
      ''in unit B, 0 subprograms and packages out of 2 analyzed'' @ [nl]"
  have t: "?a = [] \<or> last ?a = nl" by simp
  have a: "parse_gnatprove_report ?a =
   Inr \<lparr>numUnitsAnalyzed = None,
        units = [\<lparr>unit_name = ''A'', numAnalyzed = 1, numTotal = 1,
                  items = [new_item ''A.P'' ''a.adb'' ''1'' None None]\<rparr>]\<rparr>"
    by code_simp
  have b: "parse_gnatprove_report ?b =
   Inr \<lparr>numUnitsAnalyzed = Some 1,
        units = [\<lparr>unit_name = ''B'', numAnalyzed = 0, numTotal = 2, items = []\<rparr>]\<rparr>"
    by code_simp
  from C9_concatenation [OF t a b] a b show ?thesis by simp
qed

section \<open>An item line before the first unit header\<close>



end
